theory Spec2Isabelle
  imports Main "HOL-Library.Word" "HOL-Library.Tree" "HOL-Library.Multiset"
begin

unbundle bit_operations_syntax

section \<open>The splay tree library with integer keys: data model\<close>

text \<open>
  The library is pointer code.  A pointer is a 64-bit word, \<open>NULL\<close> is \<open>0\<close>.
  The nodes live in a store that maps the address of every allocated node to
  its fields; an address outside the store (\<open>NULL\<close> included) cannot be
  dereferenced.  Keys are C \<open>int\<close>s (32 bits, two's complement, read with
  \<open>sint\<close>; subtraction wraps around), the payload is what fits a
  \<open>void *\<close>, the counters are \<open>unsigned long\<close> (64 bits).
\<close>

type_synonym ptr = "64 word"

record SplayIntNode =
  father :: ptr
  left_son :: ptr
  right_son :: ptr
  key :: "32 word"
  data :: "64 word"

record SplayIntTree =
  root :: ptr
  nodes_count :: "64 word"
  max_nodes :: "64 word"

type_synonym heap = "ptr \<Rightarrow> SplayIntNode option"

definition DELETE_FREE_DATA :: "32 word" where "DELETE_FREE_DATA = 1"
definition SEARCH_SPLAY :: "32 word" where "SEARCH_SPLAY = 2"
definition SEARCH_DATA :: "32 word" where "SEARCH_DATA = 4"
definition SEARCH_KEYS :: "32 word" where "SEARCH_KEYS = 8"
definition SEARCH_NODES :: "32 word" where "SEARCH_NODES = 16"
definition DFS_PRE_ORDER :: "32 word" where "DFS_PRE_ORDER = 32"
definition DFS_IN_ORDER :: "32 word" where "DFS_IN_ORDER = 64"
definition DFS_POST_ORDER :: "32 word" where "DFS_POST_ORDER = 128"
definition BFS_LEFT_FIRST :: "32 word" where "BFS_LEFT_FIRST = 256"
definition BFS_RIGHT_FIRST :: "32 word" where "BFS_RIGHT_FIRST = 512"

text \<open>
  What can go wrong below the level of the library's own return values: a
  dereference of \<open>NULL\<close> or of an address that holds no node, a write outside
  a result buffer, and a loop that has not ended when the fuel given to it is
  used up.  Every loop of the source whose end depends on the shape of the
  store takes a fuel argument.
\<close>

datatype error = BadPointer | OutOfBounds | OutOfFuel

definition bnd :: "error + 'a \<Rightarrow> ('a \<Rightarrow> error + 'b) \<Rightarrow> error + 'b" where
  "bnd m f = (case m of Inl e \<Rightarrow> Inl e | Inr v \<Rightarrow> f v)"

definition deref :: "heap \<Rightarrow> ptr \<Rightarrow> error + SplayIntNode" where
  "deref h p = (case h p of None \<Rightarrow> Inl BadPointer | Some n \<Rightarrow> Inr n)"

definition set_father :: "ptr \<Rightarrow> ptr \<Rightarrow> heap \<Rightarrow> error + heap" where
  "set_father p v h = bnd (deref h p) (\<lambda>n. Inr (h(p \<mapsto> n\<lparr>father := v\<rparr>)))"

definition set_left_son :: "ptr \<Rightarrow> ptr \<Rightarrow> heap \<Rightarrow> error + heap" where
  "set_left_son p v h = bnd (deref h p) (\<lambda>n. Inr (h(p \<mapsto> n\<lparr>left_son := v\<rparr>)))"

definition set_right_son :: "ptr \<Rightarrow> ptr \<Rightarrow> heap \<Rightarrow> error + heap" where
  "set_right_son p v h = bnd (deref h p) (\<lambda>n. Inr (h(p \<mapsto> n\<lparr>right_son := v\<rparr>)))"

definition set_key :: "ptr \<Rightarrow> 32 word \<Rightarrow> heap \<Rightarrow> error + heap" where
  "set_key p v h = bnd (deref h p) (\<lambda>n. Inr (h(p \<mapsto> n\<lparr>key := v\<rparr>)))"

definition set_data :: "ptr \<Rightarrow> 64 word \<Rightarrow> heap \<Rightarrow> error + heap" where
  "set_data p v h = bnd (deref h p) (\<lambda>n. Inr (h(p \<mapsto> n\<lparr>data := v\<rparr>)))"

section \<open>Internal subroutines\<close>

text \<open>
  \<open>_spli_create_node\<close>.  The address \<open>a\<close> is what \<open>malloc\<close> returned: \<open>0\<close>
  when the allocation failed, else the address of a block that held no node.
\<close>

definition spli_create_node :: "ptr \<Rightarrow> 32 word \<Rightarrow> 64 word \<Rightarrow> heap \<Rightarrow> ptr \<times> heap" where
  "spli_create_node a new_key new_data h =
     (if a = 0 then (0, h)
      else (a, h(a \<mapsto> \<lparr>father = 0, left_son = 0, right_son = 0,
                          key = new_key, data = new_data\<rparr>)))"

definition spli_insert_left_subtree :: "ptr \<Rightarrow> ptr \<Rightarrow> heap \<Rightarrow> error + heap" where
  "spli_insert_left_subtree fa new_son h =
     bnd (if new_son \<noteq> 0 then set_father new_son fa h else Inr h) (\<lambda>h.
     set_left_son fa new_son h)"

definition spli_insert_right_subtree :: "ptr \<Rightarrow> ptr \<Rightarrow> heap \<Rightarrow> error + heap" where
  "spli_insert_right_subtree fa new_son h =
     bnd (if new_son \<noteq> 0 then set_father new_son fa h else Inr h) (\<lambda>h.
     set_right_son fa new_son h)"

definition spli_cut_left_subtree :: "ptr \<Rightarrow> heap \<Rightarrow> error + (ptr \<times> heap)" where
  "spli_cut_left_subtree fa h =
     bnd (deref h fa) (\<lambda>f.
     let son = left_son f in
     if son = 0 then Inr (0, h)
     else bnd (set_father son 0 h) (\<lambda>h.
          bnd (set_left_son fa 0 h) (\<lambda>h.
          Inr (son, h))))"

definition spli_cut_right_subtree :: "ptr \<Rightarrow> heap \<Rightarrow> error + (ptr \<times> heap)" where
  "spli_cut_right_subtree fa h =
     bnd (deref h fa) (\<lambda>f.
     let son = right_son f in
     if son = 0 then Inr (0, h)
     else bnd (set_father son 0 h) (\<lambda>h.
          bnd (set_right_son fa 0 h) (\<lambda>h.
          Inr (son, h))))"

fun spli_max_key_son :: "nat \<Rightarrow> ptr \<Rightarrow> heap \<Rightarrow> error + ptr" where
  "spli_max_key_son 0 cur h = Inl OutOfFuel"
| "spli_max_key_son (Suc n) cur h =
     bnd (deref h cur) (\<lambda>c.
     if right_son c \<noteq> 0 then spli_max_key_son n (right_son c) h else Inr cur)"

text \<open>
  The descent of \<open>_spli_search_node\<close>: \<open>comp = cur->_key - key\<close> is a 32-bit
  subtraction, and the branch is taken on the sign of its result.
\<close>

fun search_loop :: "nat \<Rightarrow> ptr \<Rightarrow> 32 word \<Rightarrow> heap \<Rightarrow> error + ptr" where
  "search_loop 0 cur k h = Inl OutOfFuel"
| "search_loop (Suc n) cur k h =
     (if cur \<noteq> 0 then
        bnd (deref h cur) (\<lambda>c.
        let comp = key c - k in
        if 0 < sint comp then search_loop n (left_son c) k h
        else if sint comp < 0 then search_loop n (right_son c) k h
        else Inr cur)
      else Inr 0)"

definition spli_search_node :: "nat \<Rightarrow> SplayIntTree \<Rightarrow> 32 word \<Rightarrow> heap \<Rightarrow> error + ptr" where
  "spli_search_node fuel tree k h =
     (if root tree = 0 then Inr 0 else search_loop fuel (root tree) k h)"

definition spli_swap_info :: "ptr \<Rightarrow> ptr \<Rightarrow> heap \<Rightarrow> error + heap" where
  "spli_swap_info node1 node2 h =
     bnd (deref h node1) (\<lambda>n1.
     bnd (deref h node2) (\<lambda>n2.
     let key1 = key n1; data1 = data n1; key2 = key n2; data2 = data n2 in
     bnd (set_key node1 key2 h) (\<lambda>h.
     bnd (set_key node2 key1 h) (\<lambda>h.
     bnd (set_data node1 data2 h) (\<lambda>h.
     set_data node2 data1 h)))))"

definition spli_right_rotation :: "ptr \<Rightarrow> heap \<Rightarrow> error + heap" where
  "spli_right_rotation node h =
     bnd (deref h node) (\<lambda>n.
     let ls = left_son n in
     bnd (spli_swap_info node ls h) (\<lambda>h.
     bnd (spli_cut_right_subtree node h) (\<lambda>(r_tree, h).
     bnd (spli_cut_left_subtree node h) (\<lambda>(l_tree, h).
     bnd (spli_cut_left_subtree ls h) (\<lambda>(l_tree_l, h).
     bnd (spli_cut_right_subtree ls h) (\<lambda>(l_tree_r, h).
     bnd (spli_insert_right_subtree l_tree r_tree h) (\<lambda>h.
     bnd (spli_insert_left_subtree l_tree l_tree_r h) (\<lambda>h.
     bnd (spli_insert_right_subtree node l_tree h) (\<lambda>h.
     spli_insert_left_subtree node l_tree_l h)))))))))"

definition spli_left_rotation :: "ptr \<Rightarrow> heap \<Rightarrow> error + heap" where
  "spli_left_rotation node h =
     bnd (deref h node) (\<lambda>n.
     let rs = right_son n in
     bnd (spli_swap_info node rs h) (\<lambda>h.
     bnd (spli_cut_right_subtree node h) (\<lambda>(r_tree, h).
     bnd (spli_cut_left_subtree node h) (\<lambda>(l_tree, h).
     bnd (spli_cut_left_subtree rs h) (\<lambda>(r_tree_l, h).
     bnd (spli_cut_right_subtree rs h) (\<lambda>(r_tree_r, h).
     bnd (spli_insert_left_subtree r_tree l_tree h) (\<lambda>h.
     bnd (spli_insert_right_subtree r_tree r_tree_l h) (\<lambda>h.
     bnd (spli_insert_left_subtree node r_tree h) (\<lambda>h.
     spli_insert_right_subtree node r_tree_r h)))))))))"

text \<open>
  The tests of the four two-level cases of \<open>_spli_splay\<close>.  They are four
  \<open>if\<close> statements in a row, not an \<open>else if\<close> chain: each one reads the
  store as the case before it left it.  \<open>&&\<close> reads its right operand only
  when the left one holds.
\<close>

definition is_left_of :: "ptr \<Rightarrow> ptr \<Rightarrow> heap \<Rightarrow> error + bool" where
  "is_left_of son fa h = bnd (deref h fa) (\<lambda>f. Inr (left_son f = son))"

definition is_right_of :: "ptr \<Rightarrow> ptr \<Rightarrow> heap \<Rightarrow> error + bool" where
  "is_right_of son fa h = bnd (deref h fa) (\<lambda>f. Inr (right_son f = son))"

definition and_then :: "error + bool \<Rightarrow> error + bool \<Rightarrow> error + bool" where
  "and_then a b = bnd a (\<lambda>x. if x then b else Inr False)"

definition spli_splay :: "ptr \<Rightarrow> heap \<Rightarrow> error + (ptr \<times> heap)" where
  "spli_splay node h =
     (if node = 0 then Inr (0, h)
      else bnd (deref h node) (\<lambda>n.
        if father n = 0 then Inr (node, h)
        else
          let father_node = father n in
          bnd (deref h father_node) (\<lambda>f.
          let grand_node = father f in
          if grand_node = 0 then
            bnd (if left_son f = node then spli_right_rotation father_node h
                 else spli_left_rotation father_node h) (\<lambda>h.
            Inr (father_node, h))
          else
            bnd (and_then (is_left_of node father_node h)
                          (is_left_of father_node grand_node h)) (\<lambda>c2.
            bnd (if c2 then bnd (spli_right_rotation grand_node h)
                                (spli_right_rotation grand_node)
                 else Inr h) (\<lambda>h.
            bnd (and_then (is_right_of node father_node h)
                          (is_right_of father_node grand_node h)) (\<lambda>c3.
            bnd (if c3 then bnd (spli_left_rotation grand_node h)
                                (spli_left_rotation grand_node)
                 else Inr h) (\<lambda>h.
            bnd (and_then (is_left_of node father_node h)
                          (is_right_of father_node grand_node h)) (\<lambda>c4.
            bnd (if c4 then bnd (spli_right_rotation father_node h)
                                (spli_left_rotation grand_node)
                 else Inr h) (\<lambda>h.
            bnd (and_then (is_right_of node father_node h)
                          (is_left_of father_node grand_node h)) (\<lambda>c5.
            bnd (if c5 then bnd (spli_left_rotation father_node h)
                                (spli_right_rotation grand_node)
                 else Inr h) (\<lambda>h.
            Inr (grand_node, h))))))))))))"

text \<open>
  \<open>while (top_node != cur) cur = _spli_splay(cur);\<close> the loop that the
  insertion, the search, the deletion and the join run to splay a node all the
  way up.  \<open>top_node\<close> is \<open>tree->_root\<close> (or the root of the left subtree in the
  join), which no splay step assigns.
\<close>

fun splay_loop :: "nat \<Rightarrow> ptr \<Rightarrow> ptr \<Rightarrow> heap \<Rightarrow> error + (ptr \<times> heap)" where
  "splay_loop 0 top_node cur h = Inl OutOfFuel"
| "splay_loop (Suc n) top_node cur h =
     (if top_node \<noteq> cur then bnd (spli_splay cur h) (\<lambda>(cur, h). splay_loop n top_node cur h)
      else Inr (cur, h))"

definition spli_join :: "nat \<Rightarrow> ptr \<Rightarrow> ptr \<Rightarrow> heap \<Rightarrow> error + (ptr \<times> heap)" where
  "spli_join fuel left_root right_root h =
     (if left_root = 0 \<and> right_root = 0 then Inr (0, h)
      else if left_root = 0 then Inr (right_root, h)
      else if right_root = 0 then Inr (left_root, h)
      else
        bnd (spli_max_key_son fuel left_root h) (\<lambda>left_max.
        bnd (splay_loop fuel left_root left_max h) (\<lambda>(left_max, h).
        bnd (spli_insert_right_subtree left_root right_root h) (\<lambda>h.
        Inr (left_root, h)))))"

section \<open>User functions\<close>

text \<open>
  A tree handle is a pointer to a \<open>SplayIntTree\<close>; \<open>None\<close> is the \<open>NULL\<close>
  handle.  \<open>create_splay_int_tree\<close>: \<open>ok\<close> tells whether \<open>malloc\<close> gave the
  block; \<open>ULONG_MAX\<close> is the word of all ones.
\<close>

definition create_splay_int_tree :: "bool \<Rightarrow> SplayIntTree option" where
  "create_splay_int_tree ok =
     (if \<not> ok then None
      else Some \<lparr>root = 0, nodes_count = 0, max_nodes = - 1\<rparr>)"

text \<open>
  \<open>splay_int_search\<close> returns a \<open>void *\<close>: the payload, the node's address,
  or \<open>NULL\<close>.  It assigns no field of the tree structure; the store is
  returned since the splay steps write to the nodes.
\<close>

definition splay_int_search ::
  "nat \<Rightarrow> SplayIntTree option \<Rightarrow> 32 word \<Rightarrow> 32 word \<Rightarrow> heap \<Rightarrow> error + (64 word \<times> heap)" where
  "splay_int_search fuel tree k opts h =
     (if sint opts \<le> 0 \<or> tree = None then Inr (0, h)
      else case tree of None \<Rightarrow> Inr (0, h) | Some t \<Rightarrow>
        bnd (spli_search_node fuel t k h) (\<lambda>searched_node.
        if searched_node = 0 then Inr (0, h)
        else
          bnd (if opts AND SEARCH_SPLAY \<noteq> 0
               then splay_loop fuel (root t) searched_node h
               else Inr (searched_node, h)) (\<lambda>(searched_node, h).
          if opts AND SEARCH_DATA \<noteq> 0
          then bnd (deref h searched_node) (\<lambda>n. Inr (data n, h))
          else if opts AND SEARCH_NODES \<noteq> 0 then Inr (searched_node, h)
          else Inr (0, h))))"

text \<open>
  \<open>splay_int_delete\<close>.  \<open>free(to_delete)\<close> takes the node out of the store.
  The payload is opaque, so \<open>free(to_delete->_data)\<close> under
  \<open>DELETE_FREE_DATA\<close> changes nothing that is modelled here, but the node is
  still read for it.
\<close>

definition splay_int_delete ::
  "nat \<Rightarrow> SplayIntTree option \<Rightarrow> 32 word \<Rightarrow> 32 word \<Rightarrow> heap
     \<Rightarrow> error + (32 word \<times> SplayIntTree option \<times> heap)" where
  "splay_int_delete fuel tree k opts h =
     (if sint opts < 0 \<or> tree = None then Inr (0, tree, h)
      else case tree of None \<Rightarrow> Inr (0, tree, h) | Some t \<Rightarrow>
        bnd (spli_search_node fuel t k h) (\<lambda>to_delete.
        if to_delete \<noteq> 0 then
          bnd (splay_loop fuel (root t) to_delete h) (\<lambda>(to_delete, h).
          bnd (spli_cut_left_subtree to_delete h) (\<lambda>(left_sub, h).
          bnd (spli_cut_right_subtree to_delete h) (\<lambda>(right_sub, h).
          bnd (spli_join fuel left_sub right_sub h) (\<lambda>(new_root, h).
          let t = t\<lparr>root := new_root\<rparr> in
          bnd (if opts AND DELETE_FREE_DATA \<noteq> 0
               then bnd (deref h to_delete) (\<lambda>n. Inr h) else Inr h) (\<lambda>h.
          let h = h(to_delete := None);
              t = t\<lparr>nodes_count := nodes_count t - 1\<rparr>
          in Inr (1, Some t, h))))))
        else Inr (0, tree, h)))"

text \<open>
  The descent of \<open>splay_int_insert\<close>: \<open>pred\<close> follows \<open>cur\<close>, and a key that
  compares equal goes to the left.
\<close>

fun insert_descend :: "nat \<Rightarrow> ptr \<Rightarrow> ptr \<Rightarrow> 32 word \<Rightarrow> heap \<Rightarrow> error + ptr" where
  "insert_descend 0 cur pred new_key h = Inl OutOfFuel"
| "insert_descend (Suc n) cur pred new_key h =
     (if cur \<noteq> 0 then
        bnd (deref h cur) (\<lambda>c.
        let comp = key c - new_key in
        if 0 \<le> sint comp then insert_descend n (left_son c) cur new_key h
        else insert_descend n (right_son c) cur new_key h)
      else Inr pred)"

text \<open>
  \<open>splay_int_insert\<close>.  \<open>a\<close> is the result of the \<open>malloc\<close> inside
  \<open>_spli_create_node\<close>.  The function returns the node counter.
\<close>

definition splay_int_insert ::
  "nat \<Rightarrow> ptr \<Rightarrow> SplayIntTree option \<Rightarrow> 32 word \<Rightarrow> 64 word \<Rightarrow> heap
     \<Rightarrow> error + (64 word \<times> SplayIntTree option \<times> heap)" where
  "splay_int_insert fuel a tree new_key new_data h =
     (case tree of None \<Rightarrow> Inr (0, tree, h) | Some t \<Rightarrow>
      if nodes_count t = max_nodes t then Inr (0, tree, h)
      else
        let (new_node, h) = spli_create_node a new_key new_data h in
        if root t = 0 then
          let t = t\<lparr>root := new_node\<rparr>;
              t = t\<lparr>nodes_count := nodes_count t + 1\<rparr>
          in Inr (nodes_count t, Some t, h)
        else
          bnd (insert_descend fuel (root t) 0 new_key h) (\<lambda>pred.
          bnd (deref h pred) (\<lambda>p.
          let comp = key p - new_key in
          bnd (if 0 \<le> sint comp then spli_insert_left_subtree pred new_node h
               else spli_insert_right_subtree pred new_node h) (\<lambda>h.
          bnd (splay_loop fuel (root t) new_node h) (\<lambda>(cur, h).
          let t = t\<lparr>nodes_count := nodes_count t + 1\<rparr>
          in Inr (nodes_count t, Some t, h))))))"

section \<open>Traversals\<close>

text \<open>
  A result array holds pointer-sized elements (payloads or node addresses)
  or \<open>int\<close>s (keys).  The internal pointer of the depth-first searches is an
  index into it, in elements; it is decremented at a \<open>NULL\<close> son, so it is an
  \<open>int\<close>.  A write outside the array is an error.
\<close>

datatype buffer = PtrBuf "64 word list" | IntBuf "32 word list"

definition write_ptr :: "int \<Rightarrow> 64 word \<Rightarrow> buffer \<Rightarrow> error + buffer" where
  "write_ptr i v buf =
     (case buf of
        PtrBuf xs \<Rightarrow> if 0 \<le> i \<and> i < int (length xs) then Inr (PtrBuf (xs[nat i := v]))
                     else Inl OutOfBounds
      | IntBuf xs \<Rightarrow> Inl OutOfBounds)"

definition write_key :: "int \<Rightarrow> 32 word \<Rightarrow> buffer \<Rightarrow> error + buffer" where
  "write_key i v buf =
     (case buf of
        IntBuf xs \<Rightarrow> if 0 \<le> i \<and> i < int (length xs) then Inr (IntBuf (xs[nat i := v]))
                     else Inl OutOfBounds
      | PtrBuf xs \<Rightarrow> Inl OutOfBounds)"

text \<open>The visit of a node, the same three-way test in the three searches.\<close>

definition dfs_visit :: "ptr \<Rightarrow> SplayIntNode \<Rightarrow> 32 word \<Rightarrow> int \<Rightarrow> buffer \<Rightarrow> error + buffer" where
  "dfs_visit root_node n int_opt i buf =
     (if int_opt AND SEARCH_NODES \<noteq> 0 then write_ptr i root_node buf
      else if int_opt AND SEARCH_KEYS \<noteq> 0 then write_key i (key n) buf
      else if int_opt AND SEARCH_DATA \<noteq> 0 then write_ptr i (data n) buf
      else Inr buf)"

fun spli_inodfs :: "nat \<Rightarrow> ptr \<Rightarrow> int \<times> buffer \<Rightarrow> 32 word \<Rightarrow> heap \<Rightarrow> error + (int \<times> buffer)" where
  "spli_inodfs 0 root_node (i, buf) int_opt h = Inl OutOfFuel"
| "spli_inodfs (Suc m) root_node (i, buf) int_opt h =
     (if root_node = 0 then Inr (i - 1, buf)
      else
        bnd (deref h root_node) (\<lambda>n.
        bnd (spli_inodfs m (left_son n) (i, buf) int_opt h) (\<lambda>(i, buf).
        let i = i + 1 in
        bnd (dfs_visit root_node n int_opt i buf) (\<lambda>buf.
        let i = i + 1 in
        spli_inodfs m (right_son n) (i, buf) int_opt h))))"

fun spli_preodfs :: "nat \<Rightarrow> ptr \<Rightarrow> int \<times> buffer \<Rightarrow> 32 word \<Rightarrow> heap \<Rightarrow> error + (int \<times> buffer)" where
  "spli_preodfs 0 root_node (i, buf) int_opt h = Inl OutOfFuel"
| "spli_preodfs (Suc m) root_node (i, buf) int_opt h =
     (if root_node = 0 then Inr (i - 1, buf)
      else
        bnd (deref h root_node) (\<lambda>n.
        bnd (dfs_visit root_node n int_opt i buf) (\<lambda>buf.
        let i = i + 1 in
        bnd (spli_preodfs m (left_son n) (i, buf) int_opt h) (\<lambda>(i, buf).
        let i = i + 1 in
        spli_preodfs m (right_son n) (i, buf) int_opt h))))"

fun spli_postodfs :: "nat \<Rightarrow> ptr \<Rightarrow> int \<times> buffer \<Rightarrow> 32 word \<Rightarrow> heap \<Rightarrow> error + (int \<times> buffer)" where
  "spli_postodfs 0 root_node (i, buf) int_opt h = Inl OutOfFuel"
| "spli_postodfs (Suc m) root_node (i, buf) int_opt h =
     (if root_node = 0 then Inr (i - 1, buf)
      else
        bnd (deref h root_node) (\<lambda>n.
        bnd (spli_postodfs m (left_son n) (i, buf) int_opt h) (\<lambda>(i, buf).
        let i = i + 1 in
        bnd (spli_postodfs m (right_son n) (i, buf) int_opt h) (\<lambda>(i, buf).
        let i = i + 1 in
        bnd (dfs_visit root_node n int_opt i buf) (\<lambda>buf.
        Inr (i, buf))))))"

text \<open>
  \<open>splay_int_dfs\<close>.  \<open>calloc_ok\<close> tells whether \<open>calloc\<close> gave the array;
  the array has \<open>nodes_count\<close> zeroed elements.  The result is the array, or
  \<open>None\<close> for \<open>NULL\<close>.
\<close>

definition dfs_run ::
  "nat \<Rightarrow> bool \<Rightarrow> SplayIntTree \<Rightarrow> 32 word \<Rightarrow> 32 word \<Rightarrow> buffer \<Rightarrow> heap \<Rightarrow> error + buffer option" where
  "dfs_run fuel calloc_ok t type int_opt dfs_res h =
     (if \<not> calloc_ok then Inr None
      else if type AND DFS_PRE_ORDER \<noteq> 0 then
        bnd (spli_preodfs fuel (root t) (0, dfs_res) int_opt h) (\<lambda>(i, buf). Inr (Some buf))
      else if type AND DFS_IN_ORDER \<noteq> 0 then
        bnd (spli_inodfs fuel (root t) (0, dfs_res) int_opt h) (\<lambda>(i, buf). Inr (Some buf))
      else if type AND DFS_POST_ORDER \<noteq> 0 then
        bnd (spli_postodfs fuel (root t) (0, dfs_res) int_opt h) (\<lambda>(i, buf). Inr (Some buf))
      else Inr None)"

definition splay_int_dfs ::
  "nat \<Rightarrow> bool \<Rightarrow> SplayIntTree option \<Rightarrow> 32 word \<Rightarrow> 32 word \<Rightarrow> heap \<Rightarrow> error + buffer option" where
  "splay_int_dfs fuel calloc_ok tree type opts h =
     (if sint type \<le> 0 \<or> sint opts \<le> 0 then Inr None
      else case tree of None \<Rightarrow> Inr None | Some t \<Rightarrow>
        if root t = 0 then Inr None
        else if opts AND SEARCH_DATA \<noteq> 0 then
          dfs_run fuel calloc_ok t type SEARCH_DATA
            (PtrBuf (replicate (unat (nodes_count t)) 0)) h
        else if opts AND SEARCH_KEYS \<noteq> 0 then
          dfs_run fuel calloc_ok t type SEARCH_KEYS
            (IntBuf (replicate (unat (nodes_count t)) 0)) h
        else if opts AND SEARCH_NODES \<noteq> 0 then
          dfs_run fuel calloc_ok t type SEARCH_NODES
            (PtrBuf (replicate (unat (nodes_count t)) 0)) h
        else Inr None)"

text \<open>
  \<open>splay_int_bfs\<close> uses the result array as the queue of the nodes still to
  visit: \<open>nodes_count\<close> pointer-sized slots.  When keys are asked for, they
  are written through \<open>key_ptr\<close>, an \<open>int *\<close> into the same array: the
  \<open>int\<close> of index \<open>j\<close> is one half of the slot \<open>j div 2\<close> (the low half when
  \<open>j\<close> is even: x86-64).  At the end \<open>reallocarray\<close> keeps the first
  \<open>nodes_count\<close> \<open>int\<close>s.
\<close>

definition lo_half :: "64 word \<Rightarrow> 32 word" where
  "lo_half s = ucast s"

definition hi_half :: "64 word \<Rightarrow> 32 word" where
  "hi_half s = ucast (drop_bit 32 s)"

definition with_lo :: "64 word \<Rightarrow> 32 word \<Rightarrow> 64 word" where
  "with_lo s v = (s AND NOT (mask 32)) OR ucast v"

definition with_hi :: "64 word \<Rightarrow> 32 word \<Rightarrow> 64 word" where
  "with_hi s v = (s AND mask 32) OR push_bit 32 (ucast v)"

definition write_int :: "nat \<Rightarrow> 32 word \<Rightarrow> 64 word list \<Rightarrow> error + 64 word list" where
  "write_int j v q =
     (if j div 2 < length q then
        let s = q ! (j div 2) in
        Inr (q[j div 2 := (if even j then with_lo s v else with_hi s v)])
      else Inl OutOfBounds)"

definition read_int :: "64 word list \<Rightarrow> nat \<Rightarrow> 32 word" where
  "read_int q j = (if even j then lo_half (q ! (j div 2)) else hi_half (q ! (j div 2)))"

definition write_slot :: "nat \<Rightarrow> 64 word \<Rightarrow> 64 word list \<Rightarrow> error + 64 word list" where
  "write_slot i v q = (if i < length q then Inr (q[i := v]) else Inl OutOfBounds)"

definition read_slot :: "64 word list \<Rightarrow> nat \<Rightarrow> error + 64 word" where
  "read_slot q i = (if i < length q then Inr (q ! i) else Inl OutOfBounds)"

text \<open>\<open>if (son != NULL) { *int_ptr = son; int_ptr++; }\<close>\<close>

definition enqueue :: "ptr \<Rightarrow> 64 word list \<times> nat \<Rightarrow> error + (64 word list \<times> nat)" where
  "enqueue son st =
     (case st of (q, int_ptr) \<Rightarrow>
        if son \<noteq> 0 then bnd (write_slot int_ptr son q) (\<lambda>q. Inr (q, int_ptr + 1))
        else Inr (q, int_ptr))"

text \<open>
  One turn of the loop of \<open>splay_int_bfs\<close>, at the index \<open>i\<close>: the visit of
  the current node, then its sons join the queue.
\<close>

definition bfs_visit ::
  "32 word \<Rightarrow> nat \<Rightarrow> ptr \<Rightarrow> SplayIntNode \<Rightarrow> 64 word list \<times> nat \<Rightarrow> error + (64 word list \<times> nat)" where
  "bfs_visit opts i cur c st =
     (case st of (q, key_ptr) \<Rightarrow>
        if opts AND SEARCH_DATA \<noteq> 0 then
          bnd (write_slot i (data c) q) (\<lambda>q. Inr (q, key_ptr))
        else if opts AND SEARCH_KEYS \<noteq> 0 then
          bnd (write_int key_ptr (key c) q) (\<lambda>q. Inr (q, key_ptr + 1))
        else if opts AND SEARCH_NODES \<noteq> 0 then
          bnd (write_slot i cur q) (\<lambda>q. Inr (q, key_ptr))
        else Inr (q, key_ptr))"

definition bfs_sons ::
  "32 word \<Rightarrow> SplayIntNode \<Rightarrow> 64 word list \<times> nat \<Rightarrow> error + (64 word list \<times> nat)" where
  "bfs_sons type c st =
     (if type AND BFS_LEFT_FIRST \<noteq> 0 then
        bnd (enqueue (left_son c) st) (enqueue (right_son c))
      else if type AND BFS_RIGHT_FIRST \<noteq> 0 then
        bnd (enqueue (right_son c) st) (enqueue (left_son c))
      else Inr st)"

definition bfs_step ::
  "32 word \<Rightarrow> 32 word \<Rightarrow> heap \<Rightarrow> nat \<Rightarrow> 64 word list \<times> nat \<times> nat
     \<Rightarrow> error + (64 word list \<times> nat \<times> nat)" where
  "bfs_step type opts h i st =
     (case st of (q, int_ptr, key_ptr) \<Rightarrow>
        bnd (read_slot q i) (\<lambda>cur.
        bnd (deref h cur) (\<lambda>c.
        bnd (bfs_visit opts i cur c (q, key_ptr)) (\<lambda>(q, key_ptr).
        bnd (bfs_sons type c (q, int_ptr)) (\<lambda>(q, int_ptr).
        Inr (q, int_ptr, key_ptr))))))"

text \<open>\<open>for (i = 0; i < tree->nodes_count; i++)\<close>: \<open>m\<close> turns are left.\<close>

fun bfs_loop ::
  "nat \<Rightarrow> 32 word \<Rightarrow> 32 word \<Rightarrow> heap \<Rightarrow> nat \<Rightarrow> 64 word list \<times> nat \<times> nat
     \<Rightarrow> error + (64 word list \<times> nat \<times> nat)" where
  "bfs_loop 0 type opts h i st = Inr st"
| "bfs_loop (Suc m) type opts h i st =
     bnd (bfs_step type opts h i st) (bfs_loop m type opts h (i + 1))"

definition splay_int_bfs ::
  "bool \<Rightarrow> bool \<Rightarrow> SplayIntTree option \<Rightarrow> 32 word \<Rightarrow> 32 word \<Rightarrow> heap \<Rightarrow> error + buffer option" where
  "splay_int_bfs calloc_ok realloc_ok tree type opts h =
     (case tree of None \<Rightarrow> Inr None | Some t \<Rightarrow>
      if root t = 0 \<or> sint type \<le> 0 \<or> sint opts \<le> 0
         \<or> \<not> (type AND BFS_LEFT_FIRST \<noteq> 0 \<or> type AND BFS_RIGHT_FIRST \<noteq> 0)
         \<or> \<not> (opts AND SEARCH_KEYS \<noteq> 0 \<or> opts AND SEARCH_DATA \<noteq> 0
                \<or> opts AND SEARCH_NODES \<noteq> 0)
      then Inr None
      else if \<not> calloc_ok then Inr None
      else
        let n = unat (nodes_count t) in
        bnd (write_slot 0 (root t) (replicate n 0)) (\<lambda>bfs_res.
        bnd (bfs_loop n type opts h 0 (bfs_res, 1, 0)) (\<lambda>(bfs_res, int_ptr, key_ptr).
        if opts AND SEARCH_KEYS \<noteq> 0 then
          (if realloc_ok then Inr (Some (IntBuf (map (read_int bfs_res) [0..<n])))
           else Inr None)
        else Inr (Some (PtrBuf bfs_res)))))"

section \<open>The tree a store holds\<close>

text \<open>
  An entry is a node seen from outside: its address, its key and its payload.
  \<open>htree h par t\<close> says that the store \<open>h\<close> holds the tree \<open>t\<close>, hanging
  from the node \<open>par\<close>: each node of \<open>t\<close> is allocated at its address with
  its key and payload, points to the roots of its two subtrees (\<open>NULL\<close> for an
  empty one) and back to its father.  \<open>rp t\<close> is the pointer to the root.
\<close>

type_synonym entry = "ptr \<times> 32 word \<times> 64 word"

fun rp :: "entry tree \<Rightarrow> ptr" where
  "rp Leaf = 0"
| "rp (Node l (a, k, d) r) = a"

fun htree :: "heap \<Rightarrow> ptr \<Rightarrow> entry tree \<Rightarrow> bool" where
  "htree h par Leaf = True"
| "htree h par (Node l (a, k, d) r) =
     (a \<noteq> 0
      \<and> h a = Some \<lparr>father = par, left_son = rp l, right_son = rp r, key = k, data = d\<rparr>
      \<and> htree h a l \<and> htree h a r)"

definition addrs :: "entry tree \<Rightarrow> ptr list" where
  "addrs t = map fst (inorder t)"

definition items :: "entry tree \<Rightarrow> (32 word \<times> 64 word) list" where
  "items t = map snd (inorder t)"

definition keys :: "entry tree \<Rightarrow> 32 word list" where
  "keys t = map (\<lambda>e. fst (snd e)) (inorder t)"

text \<open>
  The state between two calls: the structure \<open>tr\<close> and the store \<open>h\<close> hold
  the tree \<open>t\<close>, no node is shared, no other node is allocated, the counter
  is the number of nodes.
\<close>

definition holds :: "SplayIntTree \<Rightarrow> heap \<Rightarrow> entry tree \<Rightarrow> bool" where
  "holds tr h t =
     (htree h 0 t \<and> root tr = rp t \<and> distinct (addrs t) \<and> dom h = set (addrs t)
      \<and> unat (nodes_count tr) = size t)"

text \<open>
  A node inside a tree: the subtree at the node, and the path from it up to
  the root.  A frame of the path is a node above with its other subtree.
\<close>

datatype frame = LeftHole entry "entry tree" | RightHole "entry tree" entry

fun plug :: "entry tree \<Rightarrow> frame list \<Rightarrow> entry tree" where
  "plug t [] = t"
| "plug t (LeftHole x r # c) = plug (Node t x r) c"
| "plug t (RightHole l x # c) = plug (Node l x t) c"

fun faddr :: "frame \<Rightarrow> ptr" where
  "faddr (LeftHole (a, k, d) r) = a"
| "faddr (RightHole l (a, k, d)) = a"

text \<open>The father of the node in the hole, when the whole tree hangs from \<open>par0\<close>.\<close>

fun ctx_par :: "ptr \<Rightarrow> frame list \<Rightarrow> ptr" where
  "ctx_par par0 [] = par0"
| "ctx_par par0 (f # c) = faddr f"

text \<open>The store holds the path, and the son in the hole is \<open>hole\<close>.\<close>

fun hctx :: "heap \<Rightarrow> ptr \<Rightarrow> ptr \<Rightarrow> frame list \<Rightarrow> bool" where
  "hctx h par0 hole [] = True"
| "hctx h par0 hole (LeftHole (a, k, d) r # c) =
     (a \<noteq> 0
      \<and> h a = Some \<lparr>father = ctx_par par0 c, left_son = hole, right_son = rp r,
                    key = k, data = d\<rparr>
      \<and> htree h a r \<and> hctx h par0 a c)"
| "hctx h par0 hole (RightHole l (a, k, d) # c) =
     (a \<noteq> 0
      \<and> h a = Some \<lparr>father = ctx_par par0 c, left_son = rp l, right_son = hole,
                    key = k, data = d\<rparr>
      \<and> htree h a l \<and> hctx h par0 a c)"

text \<open>The entries in order before and after the hole.\<close>

fun before :: "frame list \<Rightarrow> entry list" where
  "before [] = []"
| "before (LeftHole x r # c) = before c"
| "before (RightHole l x # c) = before c @ inorder l @ [x]"

fun after :: "frame list \<Rightarrow> entry list" where
  "after [] = []"
| "after (LeftHole x r # c) = x # inorder r @ after c"
| "after (RightHole l x # c) = after c"

text \<open>The rotations, on trees: the two nodes keep their places and exchange their contents.\<close>

fun rot_right :: "entry tree \<Rightarrow> entry tree" where
  "rot_right (Node (Node A (b, kb, db) B) (a, ka, da) C) =
     Node A (a, kb, db) (Node B (b, ka, da) C)"
| "rot_right t = t"

fun rot_left :: "entry tree \<Rightarrow> entry tree" where
  "rot_left (Node A (a, ka, da) (Node B (b, kb, db) C)) =
     Node (Node A (b, ka, da) B) (a, kb, db) C"
| "rot_left t = t"

text \<open>
  One splay step at the node whose subtree is \<open>t\<close>: under the root (one
  rotation), or with a father and a grandfather (two rotations, the four cases
  of \<open>_spli_splay\<close>).  The result takes the place of the father, or of the
  grandfather.
\<close>

fun splay_step1 :: "entry tree \<Rightarrow> frame \<Rightarrow> entry tree" where
  "splay_step1 t (LeftHole f C) = rot_right (Node t f C)"
| "splay_step1 t (RightHole A f) = rot_left (Node A f t)"

fun splay_step2 :: "entry tree \<Rightarrow> frame \<Rightarrow> frame \<Rightarrow> entry tree" where
  "splay_step2 t (LeftHole f C) (LeftHole g D) = rot_right (rot_right (Node (Node t f C) g D))"
| "splay_step2 t (RightHole B f) (RightHole A g) = rot_left (rot_left (Node A g (Node B f t)))"
| "splay_step2 t (LeftHole f C) (RightHole A g) = rot_left (Node A g (rot_right (Node t f C)))"
| "splay_step2 t (RightHole B f) (LeftHole g D) = rot_right (Node (rot_left (Node B f t)) g D)"

text \<open>The splay of the node all the way up.\<close>

fun splay_up :: "entry tree \<Rightarrow> frame list \<Rightarrow> entry tree" where
  "splay_up t [] = t"
| "splay_up t [f] = splay_step1 t f"
| "splay_up t (f1 # f2 # c) = splay_up (splay_step2 t f1 f2) c"

text \<open>
  The descents, on trees.  \<open>find_ctx\<close> is the search: the node it stops at,
  with its path.  \<open>ins_ctx\<close> is the path to the empty place where the
  insertion hangs the new node.  \<open>max_ctx\<close> is the walk to the rightmost node.
\<close>

fun find_ctx :: "32 word \<Rightarrow> entry tree \<Rightarrow> frame list \<Rightarrow> (entry tree \<times> frame list) option" where
  "find_ctx k Leaf c = None"
| "find_ctx k (Node l (a, ka, d) r) c =
     (if 0 < sint (ka - k) then find_ctx k l (LeftHole (a, ka, d) r # c)
      else if sint (ka - k) < 0 then find_ctx k r (RightHole l (a, ka, d) # c)
      else Some (Node l (a, ka, d) r, c))"

fun ins_ctx :: "32 word \<Rightarrow> entry tree \<Rightarrow> frame list \<Rightarrow> frame list" where
  "ins_ctx k Leaf c = c"
| "ins_ctx k (Node l (a, ka, d) r) c =
     (if 0 \<le> sint (ka - k) then ins_ctx k l (LeftHole (a, ka, d) r # c)
      else ins_ctx k r (RightHole l (a, ka, d) # c))"

fun max_ctx :: "entry tree \<Rightarrow> frame list \<Rightarrow> entry tree \<times> frame list" where
  "max_ctx Leaf c = (Leaf, c)"
| "max_ctx (Node l x r) c =
     (if r = Leaf then (Node l x r, c) else max_ctx r (RightHole l x # c))"

text \<open>The three operations, on trees.\<close>

definition tree_insert :: "ptr \<Rightarrow> 32 word \<Rightarrow> 64 word \<Rightarrow> entry tree \<Rightarrow> entry tree" where
  "tree_insert a k d t = splay_up (Node Leaf (a, k, d) Leaf) (ins_ctx k t [])"

definition tree_splay :: "32 word \<Rightarrow> entry tree \<Rightarrow> entry tree" where
  "tree_splay k t = (case find_ctx k t [] of None \<Rightarrow> t | Some (s, c) \<Rightarrow> splay_up s c)"

definition tree_join :: "entry tree \<Rightarrow> entry tree \<Rightarrow> entry tree" where
  "tree_join L R =
     (if L = Leaf then R else if R = Leaf then L
      else case max_ctx L [] of (m, c) \<Rightarrow>
        (case splay_up m c of Leaf \<Rightarrow> Leaf | Node L' x R' \<Rightarrow> Node L' x R))"

definition tree_delete :: "32 word \<Rightarrow> entry tree \<Rightarrow> entry tree" where
  "tree_delete k t =
     (case find_ctx k t [] of None \<Rightarrow> t
      | Some (s, c) \<Rightarrow> (case splay_up s c of Leaf \<Rightarrow> Leaf | Node L x R \<Rightarrow> tree_join L R))"

text \<open>The addresses of the nodes on a path and in their other subtrees.\<close>

definition caddrs :: "frame list \<Rightarrow> ptr list" where
  "caddrs c = map fst (before c @ after c)"

text \<open>
  \<open>root_form t a k d xs ys\<close>: the root of \<open>t\<close> is the node \<open>a\<close> with the key
  \<open>k\<close> and the payload \<open>d\<close>, the keys and payloads of its left subtree are
  \<open>xs\<close> in order, those of its right subtree are \<open>ys\<close>.
\<close>

definition root_form ::
  "entry tree \<Rightarrow> ptr \<Rightarrow> 32 word \<Rightarrow> 64 word \<Rightarrow> (32 word \<times> 64 word) list
     \<Rightarrow> (32 word \<times> 64 word) list \<Rightarrow> bool" where
  "root_form t a k d xs ys =
     (case t of Leaf \<Rightarrow> False
      | Node L e R \<Rightarrow> e = (a, k, d) \<and> items L = xs \<and> items R = ys)"

section \<open>Sequences of calls\<close>

text \<open>
  A call of \<open>splay_int_insert\<close> (with the address its \<open>malloc\<close> returns) or of
  \<open>splay_int_delete\<close>.  \<open>run_ops\<close> makes the calls in turn on the same
  tree and counts the insertions that returned a counter other than \<open>0\<close> and
  the deletions that returned \<open>1\<close>.
\<close>

datatype op = Insert "32 word" "64 word" ptr | Delete "32 word" "32 word"

fun run_ops ::
  "nat \<Rightarrow> op list \<Rightarrow> SplayIntTree option \<times> heap
     \<Rightarrow> error + ((SplayIntTree option \<times> heap) \<times> nat \<times> nat)" where
  "run_ops fuel [] s = Inr (s, 0, 0)"
| "run_ops fuel (Insert k d a # ops) (tr, h) =
     bnd (splay_int_insert fuel a tr k d h) (\<lambda>(r, tr', h').
     bnd (run_ops fuel ops (tr', h')) (\<lambda>(s, n, m).
     Inr (s, (if r \<noteq> 0 then Suc n else n), m)))"
| "run_ops fuel (Delete k opts # ops) (tr, h) =
     bnd (splay_int_delete fuel tr k opts h) (\<lambda>(r, tr', h').
     bnd (run_ops fuel ops (tr', h')) (\<lambda>(s, n, m).
     Inr (s, n, (if r = 1 then Suc m else m))))"

text \<open>
  Every \<open>malloc\<close> of the sequence succeeds and returns a block that holds no
  node at that moment.
\<close>

fun allocs_ok :: "nat \<Rightarrow> op list \<Rightarrow> SplayIntTree option \<times> heap \<Rightarrow> bool" where
  "allocs_ok fuel [] s = True"
| "allocs_ok fuel (Insert k d a # ops) (tr, h) =
     (a \<noteq> 0 \<and> h a = None \<and>
      (case splay_int_insert fuel a tr k d h of
         Inl e \<Rightarrow> True | Inr (r, tr', h') \<Rightarrow> allocs_ok fuel ops (tr', h')))"
| "allocs_ok fuel (Delete k opts # ops) (tr, h) =
     (case splay_int_delete fuel tr k opts h of
        Inl e \<Rightarrow> True | Inr (r, tr', h') \<Rightarrow> allocs_ok fuel ops (tr', h'))"

fun op_key :: "op \<Rightarrow> 32 word" where
  "op_key (Insert k d a) = k"
| "op_key (Delete k opts) = k"

text \<open>
  The difference of two keys fits an \<open>int\<close>: the subtraction that compares
  them does not wrap around.
\<close>

definition diff_fits :: "32 word \<Rightarrow> 32 word \<Rightarrow> bool" where
  "diff_fits a b = (- (2 ^ 31) \<le> sint a - sint b \<and> sint a - sint b < 2 ^ 31)"

definition keys_fit :: "32 word list \<Rightarrow> bool" where
  "keys_fit ks = list_all (\<lambda>a. list_all (diff_fits a) ks) ks"

definition sorted_keys :: "entry tree \<Rightarrow> bool" where
  "sorted_keys t = sorted (map sint (keys t))"

text \<open>The key of an entry, as the integer it stands for.\<close>

definition ekey :: "entry \<Rightarrow> int" where
  "ekey e = sint (fst (snd e))"

section \<open>What the traversals return\<close>

text \<open>
  \<open>splice j ys xs\<close> is the array \<open>xs\<close> with \<open>ys\<close> written from the index \<open>j\<close> on.
\<close>

definition splice_at :: "nat \<Rightarrow> 'a list \<Rightarrow> 'a list \<Rightarrow> 'a list" where
  "splice_at j ys xs = take j xs @ ys @ drop (j + length ys) xs"

text \<open>
  The order a depth-first search visits the nodes in, and the array made of
  the visited entries: the tests are those of \<open>splay_int_dfs\<close>, in its order.
\<close>

definition dfs_order :: "32 word \<Rightarrow> entry tree \<Rightarrow> entry list option" where
  "dfs_order type t =
     (if type AND DFS_PRE_ORDER \<noteq> 0 then Some (preorder t)
      else if type AND DFS_IN_ORDER \<noteq> 0 then Some (inorder t)
      else if type AND DFS_POST_ORDER \<noteq> 0 then Some (postorder t)
      else None)"

definition out_buffer :: "32 word \<Rightarrow> entry list \<Rightarrow> buffer option" where
  "out_buffer opts es =
     (if opts AND SEARCH_DATA \<noteq> 0 then Some (PtrBuf (map (\<lambda>e. snd (snd e)) es))
      else if opts AND SEARCH_KEYS \<noteq> 0 then Some (IntBuf (map (\<lambda>e. fst (snd e)) es))
      else if opts AND SEARCH_NODES \<noteq> 0 then Some (PtrBuf (map fst es))
      else None)"

text \<open>
  The queue of the breadth-first search: the slots from \<open>i\<close> on hold the
  roots of the trees \<open>ts\<close> still to visit.  \<open>bfs_kids\<close> are the subtrees of a
  visited node that join the queue, in the order asked for.
\<close>

definition pend :: "64 word list \<Rightarrow> nat \<Rightarrow> entry tree list \<Rightarrow> bool" where
  "pend q i ts = (\<forall>j < length ts. q ! (i + j) = rp (ts ! j))"

definition bfs_kids :: "32 word \<Rightarrow> entry tree \<Rightarrow> entry tree \<Rightarrow> entry tree list" where
  "bfs_kids type l r =
     filter (\<lambda>t. t \<noteq> Leaf) (if type AND BFS_LEFT_FIRST \<noteq> 0 then [l, r] else [r, l])"

text \<open>
  The output of the first \<open>i\<close> turns of the breadth-first search, for the
  entries \<open>es\<close> visited: what was asked of each one in its slot, or its key
  in the \<open>int\<close> of its index with \<open>key_ptr\<close> after it.
\<close>

definition out_ptr :: "(entry \<Rightarrow> 64 word) \<Rightarrow> nat \<Rightarrow> entry list \<Rightarrow> 64 word list \<Rightarrow> nat \<Rightarrow> bool" where
  "out_ptr sel i es q kp = (length es = i \<and> (\<forall>j < i. q ! j = sel (es ! j)))"

definition out_key :: "nat \<Rightarrow> entry list \<Rightarrow> 64 word list \<Rightarrow> nat \<Rightarrow> bool" where
  "out_key i es q kp = (length es = i \<and> kp = i \<and> (\<forall>j < i. read_int q j = fst (snd (es ! j))))"

text \<open>
  The order of the keys around every node, as signed integers: no key of the
  left subtree is above the node's key, and no key of the right subtree is
  below it (\<open>bst_le\<close>), or every key of the right subtree is above it
  (\<open>bst_strict\<close>).
\<close>

fun bst_le :: "entry tree \<Rightarrow> bool" where
  "bst_le Leaf = True"
| "bst_le (Node l (a, k, d) r) =
     (list_all (\<lambda>x. sint x \<le> sint k) (keys l) \<and> list_all (\<lambda>x. sint k \<le> sint x) (keys r)
      \<and> bst_le l \<and> bst_le r)"

fun bst_strict :: "entry tree \<Rightarrow> bool" where
  "bst_strict Leaf = True"
| "bst_strict (Node l (a, k, d) r) =
     (list_all (\<lambda>x. sint x \<le> sint k) (keys l) \<and> list_all (\<lambda>x. sint k < sint x) (keys r)
      \<and> bst_strict l \<and> bst_strict r)"

text \<open>
  What \<open>splay_int_search\<close> returns for the node the descent stopped at:
  the tests of the source, in its order.
\<close>

definition search_value :: "32 word \<Rightarrow> ptr \<Rightarrow> 64 word \<Rightarrow> 64 word" where
  "search_value opts a d =
     (if opts AND SEARCH_DATA \<noteq> 0 then d else if opts AND SEARCH_NODES \<noteq> 0 then a else 0)"

section \<open>Example states\<close>

text \<open>
  The state after \<open>create_splay_int_tree\<close>, and three states that calls of
  \<open>splay_int_insert\<close> lead to from it: the keys \<open>1\<close> then \<open>5\<close>; the key
  \<open>5\<close> twice; the keys \<open>-1\<close> then \<open>INT_MAX\<close>.  Each comes with the tree it
  holds.  The last is the tree with the single key \<open>1\<close>.
\<close>

definition new_state :: "SplayIntTree option \<times> heap" where
  "new_state = (create_splay_int_tree True, Map.empty)"

definition two_nodes_tree :: SplayIntTree where
  "two_nodes_tree = \<lparr>root = 1, nodes_count = 2, max_nodes = - 1\<rparr>"

definition two_nodes_heap :: heap where
  "two_nodes_heap =
     [2 \<mapsto> \<lparr>father = 1, left_son = 0, right_son = 0, key = 1, data = 8\<rparr>,
      1 \<mapsto> \<lparr>father = 0, left_son = 2, right_son = 0, key = 5, data = 7\<rparr>]"

definition two_nodes_shape :: "entry tree" where
  "two_nodes_shape = Node (Node Leaf (2, 1, 8) Leaf) (1, 5, 7) Leaf"

definition same_keys_heap :: heap where
  "same_keys_heap =
     [2 \<mapsto> \<lparr>father = 1, left_son = 0, right_son = 0, key = 5, data = 7\<rparr>,
      1 \<mapsto> \<lparr>father = 0, left_son = 0, right_son = 2, key = 5, data = 8\<rparr>]"

definition same_keys_shape :: "entry tree" where
  "same_keys_shape = Node Leaf (1, 5, 8) (Node Leaf (2, 5, 7) Leaf)"

definition far_keys_heap :: heap where
  "far_keys_heap =
     [2 \<mapsto> \<lparr>father = 1, left_son = 0, right_son = 0, key = - 1, data = 7\<rparr>,
      1 \<mapsto> \<lparr>father = 0, left_son = 2, right_son = 0, key = 2147483647, data = 8\<rparr>]"

definition far_keys_shape :: "entry tree" where
  "far_keys_shape = Node (Node Leaf (2, - 1, 7) Leaf) (1, 2147483647, 8) Leaf"

definition one_node_tree :: SplayIntTree where
  "one_node_tree = \<lparr>root = 1, nodes_count = 1, max_nodes = - 1\<rparr>"

definition one_node_heap :: heap where
  "one_node_heap = [1 \<mapsto> \<lparr>father = 0, left_son = 0, right_son = 0, key = 1, data = 7\<rparr>]"

text \<open>
  The mode and the order that a call serves when its options have several
  bits: the first one in the order of the tests of the source.  For
  \<open>splay_int_search\<close> the \<open>SEARCH_SPLAY\<close> bit is kept.
\<close>

definition served_mode :: "32 word \<Rightarrow> 32 word" where
  "served_mode opts =
     (if opts AND SEARCH_DATA \<noteq> 0 then SEARCH_DATA
      else if opts AND SEARCH_KEYS \<noteq> 0 then SEARCH_KEYS
      else if opts AND SEARCH_NODES \<noteq> 0 then SEARCH_NODES else 0)"

definition served_order :: "32 word \<Rightarrow> 32 word" where
  "served_order type =
     (if type AND DFS_PRE_ORDER \<noteq> 0 then DFS_PRE_ORDER
      else if type AND DFS_IN_ORDER \<noteq> 0 then DFS_IN_ORDER
      else if type AND DFS_POST_ORDER \<noteq> 0 then DFS_POST_ORDER else 0)"

definition search_served :: "32 word \<Rightarrow> 32 word" where
  "search_served opts =
     (if opts AND SEARCH_SPLAY \<noteq> 0 then SEARCH_SPLAY else 0)
     + (if opts AND SEARCH_DATA \<noteq> 0 then SEARCH_DATA
        else if opts AND SEARCH_NODES \<noteq> 0 then SEARCH_NODES else 0)"

section \<open>Basic facts\<close>

lemma bnd_Inr [simp]: "bnd (Inr v) f = f v"
  by (simp add: bnd_def)

lemma bnd_Inl [simp]: "bnd (Inl e) f = Inl e"
  by (simp add: bnd_def)

lemma bnd_eq_Inr: "bnd m f = Inr r \<longleftrightarrow> (\<exists>v. m = Inr v \<and> f v = Inr r)"
  by (cases m) simp_all

lemma addrs_simps [simp]:
  "addrs Leaf = []"
  "addrs (Node l (a, k, d) r) = addrs l @ a # addrs r"
  by (simp_all add: addrs_def)

lemma htree_frame:
  "(\<And>x. x \<in> set (addrs t) \<Longrightarrow> h' x = h x) \<Longrightarrow> htree h' par t = htree h par t"
  by (induction t arbitrary: par) auto

lemma htree_upd [simp]:
  "x \<notin> set (addrs t) \<Longrightarrow> htree (h(x := v)) par t = htree h par t"
  by (rule htree_frame) auto

lemmas prim_defs =
  spli_swap_info_def spli_cut_left_subtree_def spli_cut_right_subtree_def
  spli_insert_left_subtree_def spli_insert_right_subtree_def deref_def
  set_father_def set_left_son_def set_right_son_def set_key_def set_data_def Let_def

lemma htree_reroot:
  assumes "htree h par t" "distinct (addrs t)"
    and "\<And>x. x \<in> set (addrs t) \<Longrightarrow> x \<noteq> rp t \<Longrightarrow> h' x = h x"
    and "t \<noteq> Leaf \<Longrightarrow> h' (rp t) = map_option (\<lambda>n. n\<lparr>father := v\<rparr>) (h (rp t))"
  shows "htree h' v t"
proof (cases t)
  case Leaf
  then show ?thesis by simp
next
  case (Node l e r)
  obtain a k d where e: "e = (a, k, d)" by (cases e)
  have l: "htree h' a l = htree h a l"
    using assms(2,3) Node e by (intro htree_frame) auto
  have r: "htree h' a r = htree h a r"
    using assms(2,3) Node e by (intro htree_frame) auto
  show ?thesis using assms(1,4) Node e l r by auto
qed

lemma right_rotation_ptr:
  assumes "h a = Some \<lparr>father = par, left_son = b, right_son = rc, key = ka, data = da\<rparr>"
    and "h b = Some \<lparr>father = a, left_son = ra, right_son = rb, key = kb, data = db\<rparr>"
    and "a \<noteq> b"
    and "ra \<noteq> 0 \<Longrightarrow> h ra \<noteq> None \<and> ra \<noteq> a \<and> ra \<noteq> b \<and> ra \<noteq> rb \<and> ra \<noteq> rc"
    and "rb \<noteq> 0 \<Longrightarrow> h rb \<noteq> None \<and> rb \<noteq> a \<and> rb \<noteq> b \<and> rb \<noteq> rc"
    and "rc \<noteq> 0 \<Longrightarrow> h rc \<noteq> None \<and> rc \<noteq> a \<and> rc \<noteq> b"
  shows "\<exists>h'. spli_right_rotation a h = Inr h'
    \<and> h' a = Some \<lparr>father = par, left_son = ra, right_son = b, key = kb, data = db\<rparr>
    \<and> h' b = Some \<lparr>father = a, left_son = rb, right_son = rc, key = ka, data = da\<rparr>
    \<and> (ra \<noteq> 0 \<longrightarrow> h' ra = map_option (\<lambda>n. n\<lparr>father := a\<rparr>) (h ra))
    \<and> (rb \<noteq> 0 \<longrightarrow> h' rb = map_option (\<lambda>n. n\<lparr>father := b\<rparr>) (h rb))
    \<and> (rc \<noteq> 0 \<longrightarrow> h' rc = map_option (\<lambda>n. n\<lparr>father := b\<rparr>) (h rc))
    \<and> (\<forall>x. x \<noteq> a \<and> x \<noteq> b \<and> (ra = 0 \<or> x \<noteq> ra) \<and> (rb = 0 \<or> x \<noteq> rb) \<and> (rc = 0 \<or> x \<noteq> rc)
          \<longrightarrow> h' x = h x)"
  using assms
  by (cases "ra = 0"; cases "rb = 0"; cases "rc = 0")
     (auto simp add: spli_right_rotation_def prim_defs)


lemma left_rotation_ptr:
  assumes "h a = Some \<lparr>father = par, left_son = ra, right_son = b, key = ka, data = da\<rparr>"
    and "h b = Some \<lparr>father = a, left_son = rb, right_son = rc, key = kb, data = db\<rparr>"
    and "a \<noteq> b"
    and "ra \<noteq> 0 \<Longrightarrow> h ra \<noteq> None \<and> ra \<noteq> a \<and> ra \<noteq> b \<and> ra \<noteq> rb \<and> ra \<noteq> rc"
    and "rb \<noteq> 0 \<Longrightarrow> h rb \<noteq> None \<and> rb \<noteq> a \<and> rb \<noteq> b \<and> rb \<noteq> rc"
    and "rc \<noteq> 0 \<Longrightarrow> h rc \<noteq> None \<and> rc \<noteq> a \<and> rc \<noteq> b"
  shows "\<exists>h'. spli_left_rotation a h = Inr h'
    \<and> h' a = Some \<lparr>father = par, left_son = b, right_son = rc, key = kb, data = db\<rparr>
    \<and> h' b = Some \<lparr>father = a, left_son = ra, right_son = rb, key = ka, data = da\<rparr>
    \<and> (ra \<noteq> 0 \<longrightarrow> h' ra = map_option (\<lambda>n. n\<lparr>father := b\<rparr>) (h ra))
    \<and> (rb \<noteq> 0 \<longrightarrow> h' rb = map_option (\<lambda>n. n\<lparr>father := b\<rparr>) (h rb))
    \<and> (rc \<noteq> 0 \<longrightarrow> h' rc = map_option (\<lambda>n. n\<lparr>father := a\<rparr>) (h rc))
    \<and> (\<forall>x. x \<noteq> a \<and> x \<noteq> b \<and> (ra = 0 \<or> x \<noteq> ra) \<and> (rb = 0 \<or> x \<noteq> rb) \<and> (rc = 0 \<or> x \<noteq> rc)
          \<longrightarrow> h' x = h x)"
  using assms
  by (cases "ra = 0"; cases "rb = 0"; cases "rc = 0")
     (auto simp add: spli_left_rotation_def prim_defs)

lemma rp_in_addrs: "t \<noteq> Leaf \<Longrightarrow> rp t \<in> set (addrs t)"
  by (cases t) auto

lemma htree_nz: "htree h par t \<Longrightarrow> 0 \<notin> set (addrs t)"
  by (induction t arbitrary: par) auto

lemma htree_alloc: "htree h par t \<Longrightarrow> x \<in> set (addrs t) \<Longrightarrow> h x \<noteq> None"
  by (induction t arbitrary: par) auto

lemma htree_rp_nz: "htree h par t \<Longrightarrow> (rp t = 0) = (t = Leaf)"
  by (cases t) auto

lemma htree_root_facts:
  assumes "htree h par t" "rp t \<noteq> 0"
  shows "t \<noteq> Leaf" "rp t \<in> set (addrs t)" "h (rp t) \<noteq> None"
proof -
  show t: "t \<noteq> Leaf" using assms by (cases t) auto
  then show r: "rp t \<in> set (addrs t)" by (rule rp_in_addrs)
  then show "h (rp t) \<noteq> None" using assms(1) by (rule htree_alloc[rotated])
qed

lemma right_rotation_spec:
  assumes T: "htree h par (Node (Node A (b, kb, db) B) (a, ka, da) C)"
    and D: "distinct (addrs (Node (Node A (b, kb, db) B) (a, ka, da) C))"
  shows "\<exists>h'. spli_right_rotation a h = Inr h'
    \<and> htree h' par (Node A (a, kb, db) (Node B (b, ka, da) C))
    \<and> (\<forall>x. x \<notin> set (addrs (Node (Node A (b, kb, db) B) (a, ka, da) C)) \<longrightarrow> h' x = h x)"
proof -
  have hA: "htree h b A" and hB: "htree h b B" and hC: "htree h a C"
    and a0: "a \<noteq> 0" and b0: "b \<noteq> 0"
    and ha: "h a = Some \<lparr>father = par, left_son = b, right_son = rp C, key = ka, data = da\<rparr>"
    and hb: "h b = Some \<lparr>father = a, left_son = rp A, right_son = rp B, key = kb, data = db\<rparr>"
    using T by auto
  have dA: "distinct (addrs A)" and dB: "distinct (addrs B)" and dC: "distinct (addrs C)"
    and ab: "a \<noteq> b"
    and aA: "a \<notin> set (addrs A)" and aB: "a \<notin> set (addrs B)" and aC: "a \<notin> set (addrs C)"
    and bA: "b \<notin> set (addrs A)" and bB: "b \<notin> set (addrs B)" and bC: "b \<notin> set (addrs C)"
    and AB: "set (addrs A) \<inter> set (addrs B) = {}"
    and AC: "set (addrs A) \<inter> set (addrs C) = {}"
    and BC: "set (addrs B) \<inter> set (addrs C) = {}"
    using D by auto
  note rA = htree_root_facts[OF hA] and rB = htree_root_facts[OF hB] and rC = htree_root_facts[OF hC]
  note zA = htree_nz[OF hA] and zB = htree_nz[OF hB] and zC = htree_nz[OF hC]
  have pA: "rp A \<noteq> 0 \<Longrightarrow> h (rp A) \<noteq> None \<and> rp A \<noteq> a \<and> rp A \<noteq> b \<and> rp A \<noteq> rp B \<and> rp A \<noteq> rp C"
    using rA rB rC aA bA AB AC by auto
  have pB: "rp B \<noteq> 0 \<Longrightarrow> h (rp B) \<noteq> None \<and> rp B \<noteq> a \<and> rp B \<noteq> b \<and> rp B \<noteq> rp C"
    using rB rC aB bB BC by auto
  have pC: "rp C \<noteq> 0 \<Longrightarrow> h (rp C) \<noteq> None \<and> rp C \<noteq> a \<and> rp C \<noteq> b"
    using rC aC bC by auto
  from right_rotation_ptr[OF ha hb ab pA pB pC]
  obtain h' where run: "spli_right_rotation a h = Inr h'"
    and h'a: "h' a = Some \<lparr>father = par, left_son = rp A, right_son = b, key = kb, data = db\<rparr>"
    and h'b: "h' b = Some \<lparr>father = a, left_son = rp B, right_son = rp C, key = ka, data = da\<rparr>"
    and h'A: "rp A \<noteq> 0 \<longrightarrow> h' (rp A) = map_option (\<lambda>n. n\<lparr>father := a\<rparr>) (h (rp A))"
    and h'B: "rp B \<noteq> 0 \<longrightarrow> h' (rp B) = map_option (\<lambda>n. n\<lparr>father := b\<rparr>) (h (rp B))"
    and h'C: "rp C \<noteq> 0 \<longrightarrow> h' (rp C) = map_option (\<lambda>n. n\<lparr>father := b\<rparr>) (h (rp C))"
    and fr: "\<forall>x. x \<noteq> a \<and> x \<noteq> b \<and> (rp A = 0 \<or> x \<noteq> rp A) \<and> (rp B = 0 \<or> x \<noteq> rp B)
           \<and> (rp C = 0 \<or> x \<noteq> rp C) \<longrightarrow> h' x = h x"
    by blast
  have out: "h' x = h x" if "x \<noteq> a" "x \<noteq> b" "x \<notin> set (addrs A)" "x \<notin> set (addrs B)"
    "x \<notin> set (addrs C)" for x
  proof -
    have "rp A = 0 \<or> x \<noteq> rp A" "rp B = 0 \<or> x \<noteq> rp B" "rp C = 0 \<or> x \<noteq> rp C"
      using that rA(2) rB(2) rC(2) by blast+
    then show ?thesis using fr that by blast
  qed
  have inA: "h' x = h x" if "x \<in> set (addrs A)" "x \<noteq> rp A" for x
  proof -
    have "x \<noteq> a" "x \<noteq> b" "rp B = 0 \<or> x \<noteq> rp B" "rp C = 0 \<or> x \<noteq> rp C"
      using that aA bA AB AC rB(2) rC(2) by blast+
    then show ?thesis using fr that by blast
  qed
  have inB: "h' x = h x" if "x \<in> set (addrs B)" "x \<noteq> rp B" for x
  proof -
    have "x \<noteq> a" "x \<noteq> b" "rp A = 0 \<or> x \<noteq> rp A" "rp C = 0 \<or> x \<noteq> rp C"
      using that aB bB AB BC rA(2) rC(2) by blast+
    then show ?thesis using fr that by blast
  qed
  have inC: "h' x = h x" if "x \<in> set (addrs C)" "x \<noteq> rp C" for x
  proof -
    have "x \<noteq> a" "x \<noteq> b" "rp A = 0 \<or> x \<noteq> rp A" "rp B = 0 \<or> x \<noteq> rp B"
      using that aC bC AC BC rA(2) rB(2) by blast+
    then show ?thesis using fr that by blast
  qed
  have tA: "htree h' a A"
    using h'A htree_rp_nz[OF hA] by (intro htree_reroot[OF hA dA inA]) auto
  have tB: "htree h' b B"
    using h'B htree_rp_nz[OF hB] by (intro htree_reroot[OF hB dB inB]) auto
  have tC: "htree h' b C"
    using h'C htree_rp_nz[OF hC] by (intro htree_reroot[OF hC dC inC]) auto
  show ?thesis using run h'a h'b tA tB tC a0 b0 out by auto
qed

lemma left_rotation_spec:
  assumes T: "htree h par (Node A (a, ka, da) (Node B (b, kb, db) C))"
    and D: "distinct (addrs (Node A (a, ka, da) (Node B (b, kb, db) C)))"
  shows "\<exists>h'. spli_left_rotation a h = Inr h'
    \<and> htree h' par (Node (Node A (b, ka, da) B) (a, kb, db) C)
    \<and> (\<forall>x. x \<notin> set (addrs (Node A (a, ka, da) (Node B (b, kb, db) C))) \<longrightarrow> h' x = h x)"
proof -
  have hA: "htree h a A" and hB: "htree h b B" and hC: "htree h b C"
    and a0: "a \<noteq> 0" and b0: "b \<noteq> 0"
    and ha: "h a = Some \<lparr>father = par, left_son = rp A, right_son = b, key = ka, data = da\<rparr>"
    and hb: "h b = Some \<lparr>father = a, left_son = rp B, right_son = rp C, key = kb, data = db\<rparr>"
    using T by auto
  have dA: "distinct (addrs A)" and dB: "distinct (addrs B)" and dC: "distinct (addrs C)"
    and ab: "a \<noteq> b"
    and aA: "a \<notin> set (addrs A)" and aB: "a \<notin> set (addrs B)" and aC: "a \<notin> set (addrs C)"
    and bA: "b \<notin> set (addrs A)" and bB: "b \<notin> set (addrs B)" and bC: "b \<notin> set (addrs C)"
    and AB: "set (addrs A) \<inter> set (addrs B) = {}"
    and AC: "set (addrs A) \<inter> set (addrs C) = {}"
    and BC: "set (addrs B) \<inter> set (addrs C) = {}"
    using D by auto
  note rA = htree_root_facts[OF hA] and rB = htree_root_facts[OF hB] and rC = htree_root_facts[OF hC]
  note zA = htree_nz[OF hA] and zB = htree_nz[OF hB] and zC = htree_nz[OF hC]
  have pA: "rp A \<noteq> 0 \<Longrightarrow> h (rp A) \<noteq> None \<and> rp A \<noteq> a \<and> rp A \<noteq> b \<and> rp A \<noteq> rp B \<and> rp A \<noteq> rp C"
    using rA rB rC aA bA AB AC by auto
  have pB: "rp B \<noteq> 0 \<Longrightarrow> h (rp B) \<noteq> None \<and> rp B \<noteq> a \<and> rp B \<noteq> b \<and> rp B \<noteq> rp C"
    using rB rC aB bB BC by auto
  have pC: "rp C \<noteq> 0 \<Longrightarrow> h (rp C) \<noteq> None \<and> rp C \<noteq> a \<and> rp C \<noteq> b"
    using rC aC bC by auto
  from left_rotation_ptr[OF ha hb ab pA pB pC]
  obtain h' where run: "spli_left_rotation a h = Inr h'"
    and h'a: "h' a = Some \<lparr>father = par, left_son = b, right_son = rp C, key = kb, data = db\<rparr>"
    and h'b: "h' b = Some \<lparr>father = a, left_son = rp A, right_son = rp B, key = ka, data = da\<rparr>"
    and h'A: "rp A \<noteq> 0 \<longrightarrow> h' (rp A) = map_option (\<lambda>n. n\<lparr>father := b\<rparr>) (h (rp A))"
    and h'B: "rp B \<noteq> 0 \<longrightarrow> h' (rp B) = map_option (\<lambda>n. n\<lparr>father := b\<rparr>) (h (rp B))"
    and h'C: "rp C \<noteq> 0 \<longrightarrow> h' (rp C) = map_option (\<lambda>n. n\<lparr>father := a\<rparr>) (h (rp C))"
    and fr: "\<forall>x. x \<noteq> a \<and> x \<noteq> b \<and> (rp A = 0 \<or> x \<noteq> rp A) \<and> (rp B = 0 \<or> x \<noteq> rp B)
           \<and> (rp C = 0 \<or> x \<noteq> rp C) \<longrightarrow> h' x = h x"
    by blast
  have out: "h' x = h x" if "x \<noteq> a" "x \<noteq> b" "x \<notin> set (addrs A)" "x \<notin> set (addrs B)"
    "x \<notin> set (addrs C)" for x
  proof -
    have "rp A = 0 \<or> x \<noteq> rp A" "rp B = 0 \<or> x \<noteq> rp B" "rp C = 0 \<or> x \<noteq> rp C"
      using that rA(2) rB(2) rC(2) by blast+
    then show ?thesis using fr that by blast
  qed
  have inA: "h' x = h x" if "x \<in> set (addrs A)" "x \<noteq> rp A" for x
  proof -
    have "x \<noteq> a" "x \<noteq> b" "rp B = 0 \<or> x \<noteq> rp B" "rp C = 0 \<or> x \<noteq> rp C"
      using that aA bA AB AC rB(2) rC(2) by blast+
    then show ?thesis using fr that by blast
  qed
  have inB: "h' x = h x" if "x \<in> set (addrs B)" "x \<noteq> rp B" for x
  proof -
    have "x \<noteq> a" "x \<noteq> b" "rp A = 0 \<or> x \<noteq> rp A" "rp C = 0 \<or> x \<noteq> rp C"
      using that aB bB AB BC rA(2) rC(2) by blast+
    then show ?thesis using fr that by blast
  qed
  have inC: "h' x = h x" if "x \<in> set (addrs C)" "x \<noteq> rp C" for x
  proof -
    have "x \<noteq> a" "x \<noteq> b" "rp A = 0 \<or> x \<noteq> rp A" "rp B = 0 \<or> x \<noteq> rp B"
      using that aC bC AC BC rA(2) rB(2) by blast+
    then show ?thesis using fr that by blast
  qed
  have tA: "htree h' b A"
    using h'A htree_rp_nz[OF hA] by (intro htree_reroot[OF hA dA inA]) auto
  have tB: "htree h' b B"
    using h'B htree_rp_nz[OF hB] by (intro htree_reroot[OF hB dB inB]) auto
  have tC: "htree h' a C"
    using h'C htree_rp_nz[OF hC] by (intro htree_reroot[OF hC dC inC]) auto
  show ?thesis using run h'a h'b tA tB tC a0 b0 out by auto
qed


lemma rot_right_facts [simp]:
  "rp (rot_right t) = rp t" "set (addrs (rot_right t)) = set (addrs t)"
  "distinct (addrs (rot_right t)) = distinct (addrs t)" "items (rot_right t) = items t"
  "size (rot_right t) = size t" "mset (addrs (rot_right t)) = mset (addrs t)"
  by (induction t rule: rot_right.induct; auto simp add: items_def)+

lemma rot_left_facts [simp]:
  "rp (rot_left t) = rp t" "set (addrs (rot_left t)) = set (addrs t)"
  "distinct (addrs (rot_left t)) = distinct (addrs t)" "items (rot_left t) = items t"
  "size (rot_left t) = size t" "mset (addrs (rot_left t)) = mset (addrs t)"
  by (induction t rule: rot_left.induct; auto simp add: items_def)+

lemma rot_right_heap:
  assumes "htree h par (Node (Node A eb B) ea C)" "distinct (addrs (Node (Node A eb B) ea C))"
  shows "\<exists>h'. spli_right_rotation (rp (Node (Node A eb B) ea C)) h = Inr h'
    \<and> htree h' par (rot_right (Node (Node A eb B) ea C))
    \<and> (\<forall>x. x \<notin> set (addrs (Node (Node A eb B) ea C)) \<longrightarrow> h' x = h x)"
proof -
  obtain a ka da b kb db where e: "ea = (a, ka, da)" "eb = (b, kb, db)"
    by (cases ea; cases eb) auto
  show ?thesis using right_rotation_spec[OF assms[unfolded e]] unfolding e by simp
qed

lemma rot_left_heap:
  assumes "htree h par (Node A ea (Node B eb C))" "distinct (addrs (Node A ea (Node B eb C)))"
  shows "\<exists>h'. spli_left_rotation (rp (Node A ea (Node B eb C))) h = Inr h'
    \<and> htree h' par (rot_left (Node A ea (Node B eb C)))
    \<and> (\<forall>x. x \<notin> set (addrs (Node A ea (Node B eb C))) \<longrightarrow> h' x = h x)"
proof -
  obtain a ka da b kb db where e: "ea = (a, ka, da)" "eb = (b, kb, db)"
    by (cases ea; cases eb) auto
  show ?thesis using left_rotation_spec[OF assms[unfolded e]] unfolding e by simp
qed

section \<open>Paths\<close>

lemma inorder_plug: "inorder (plug t c) = before c @ inorder t @ after c"
  by (induction t c rule: plug.induct) auto

lemma addrs_plug: "addrs (plug t c) = map fst (before c) @ addrs t @ map fst (after c)"
  by (simp add: addrs_def inorder_plug)

lemma set_addrs_plug: "set (addrs (plug t c)) = set (addrs t) \<union> set (caddrs c)"
  by (auto simp add: addrs_plug caddrs_def)

lemma distinct_plug:
  "distinct (addrs (plug t c)) \<Longrightarrow>
   distinct (addrs t) \<and> distinct (caddrs c) \<and> set (addrs t) \<inter> set (caddrs c) = {}"
  by (auto simp add: addrs_plug caddrs_def)

lemma distinct_plug_replace:
  "distinct (addrs (plug t c)) \<Longrightarrow> distinct (addrs t') \<Longrightarrow> set (addrs t') = set (addrs t) \<Longrightarrow>
   distinct (addrs (plug t' c))"
  by (auto simp add: addrs_plug)

lemma caddrs_simps [simp]:
  "caddrs [] = []"
  "set (caddrs (LeftHole (a, k, d) r # c)) = insert a (set (addrs r) \<union> set (caddrs c))"
  "set (caddrs (RightHole l (a, k, d) # c)) = insert a (set (addrs l) \<union> set (caddrs c))"
  by (auto simp add: caddrs_def addrs_def)

lemma htree_plug:
  "htree h par0 (plug t c) = (htree h (ctx_par par0 c) t \<and> hctx h par0 (rp t) c)"
proof (induction t c rule: plug.induct)
  case (1 t)
  then show ?case by simp
next
  case (2 t x r c)
  then show ?case by (cases x) auto
next
  case (3 t l x c)
  then show ?case by (cases x) auto
qed

lemma hctx_frame:
  "(\<And>x. x \<in> set (caddrs c) \<Longrightarrow> h' x = h x) \<Longrightarrow> hctx h' par0 hole c = hctx h par0 hole c"
proof (induction h par0 hole c rule: hctx.induct)
  case (1 h par0 hole)
  then show ?case by simp
next
  case (2 h par0 hole a k d r c)
  have "htree h' a r = htree h a r" using 2(2) by (intro htree_frame) simp
  moreover have "hctx h' par0 a c = hctx h par0 a c" using 2 by simp
  ultimately show ?case using 2(2) by simp
next
  case (3 h par0 hole l a k d c)
  have "htree h' a l = htree h a l" using 3(2) by (intro htree_frame) simp
  moreover have "hctx h' par0 a c = hctx h par0 a c" using 3 by simp
  ultimately show ?case using 3(2) by simp
qed

lemma plug_replace:
  assumes "htree h par0 (plug t c)" "distinct (addrs (plug t c))"
    and "htree h' (ctx_par par0 c) t'" "rp t' = rp t"
    and "\<And>x. x \<notin> set (addrs t) \<Longrightarrow> h' x = h x"
  shows "htree h' par0 (plug t' c)"
proof -
  have "hctx h par0 (rp t) c" using assms(1) by (simp add: htree_plug)
  moreover have "hctx h' par0 (rp t) c = hctx h par0 (rp t) c"
    using distinct_plug[OF assms(2)] assms(5) by (intro hctx_frame) auto
  ultimately show ?thesis using assms(3,4) by (simp add: htree_plug)
qed

lemma rp_plug: "rp (plug t c) = (if c = [] then rp t else faddr (last c))"
proof (induction t c rule: plug.induct)
  case (1 t)
  then show ?case by simp
next
  case (2 t x r c)
  then show ?case by (cases x) auto
next
  case (3 t l x c)
  then show ?case by (cases x) auto
qed

lemma faddr_in_caddrs: "f \<in> set c \<Longrightarrow> faddr f \<in> set (caddrs c)"
proof (induction c)
  case Nil
  then show ?case by simp
next
  case (Cons g c)
  then show ?case by (cases g rule: faddr.cases) auto
qed

section \<open>The splay step\<close>

lemma rp_neq: "htree h p t \<Longrightarrow> x \<notin> set (addrs t) \<Longrightarrow> x \<noteq> 0 \<Longrightarrow> rp t \<noteq> x"
  by (cases t) auto

lemma splay_unfold_root:
  assumes "h n = Some nn" "n \<noteq> 0" "father nn \<noteq> 0" "h (father nn) = Some nf" "father nf = 0"
  shows "spli_splay n h =
    bnd (if left_son nf = n then spli_right_rotation (father nn) h
         else spli_left_rotation (father nn) h) (\<lambda>h. Inr (father nn, h))"
  using assms by (simp add: spli_splay_def deref_def Let_def)

lemma splay_unfold_grand:
  assumes "h n = Some nn" "n \<noteq> 0" "father nn = fa" "fa \<noteq> 0" "h fa = Some nf"
    "father nf = ga" "ga \<noteq> 0"
  shows "spli_splay n h =
            bnd (and_then (is_left_of n fa h) (is_left_of fa ga h)) (\<lambda>c2.
            bnd (if c2 then bnd (spli_right_rotation ga h) (spli_right_rotation ga)
                 else Inr h) (\<lambda>h.
            bnd (and_then (is_right_of n fa h) (is_right_of fa ga h)) (\<lambda>c3.
            bnd (if c3 then bnd (spli_left_rotation ga h) (spli_left_rotation ga)
                 else Inr h) (\<lambda>h.
            bnd (and_then (is_left_of n fa h) (is_right_of fa ga h)) (\<lambda>c4.
            bnd (if c4 then bnd (spli_right_rotation fa h) (spli_left_rotation ga)
                 else Inr h) (\<lambda>h.
            bnd (and_then (is_right_of n fa h) (is_left_of fa ga h)) (\<lambda>c5.
            bnd (if c5 then bnd (spli_left_rotation fa h) (spli_right_rotation ga)
                 else Inr h) (\<lambda>h.
            Inr (ga, h)))))))))"
proof -
  have "father nn \<noteq> 0" "h (father nn) = Some nf" "father nf \<noteq> 0"
    using assms by auto
  then show ?thesis
    using assms(1,2) unfolding assms(3)[symmetric] assms(6)[symmetric]
    by (simp add: spli_splay_def deref_def Let_def)
qed

lemma is_left_of_eval: "h fa = Some nf \<Longrightarrow> is_left_of n fa h = Inr (left_son nf = n)"
  by (simp add: is_left_of_def deref_def)

lemma is_right_of_eval: "h fa = Some nf \<Longrightarrow> is_right_of n fa h = Inr (right_son nf = n)"
  by (simp add: is_right_of_def deref_def)

lemma and_then_simps [simp]:
  "and_then (Inr True) b = b" "and_then (Inr False) b = Inr False"
  by (simp_all add: and_then_def)

lemma splay_LL:
  assumes H: "htree h 0 (plug (Node (Node t f C) g D) c)"
    and Dd: "distinct (addrs (plug (Node (Node t f C) g D) c))"
    and tn: "t \<noteq> Leaf"
  shows "\<exists>h'. spli_splay (rp t) h = Inr (rp (Node (Node t f C) g D), h')
    \<and> htree h' 0 (plug (rot_right (rot_right (Node (Node t f C) g D))) c)
    \<and> (\<forall>x. x \<notin> set (addrs (Node (Node t f C) g D)) \<longrightarrow> h' x = h x)"
proof -
  obtain A e B where t: "t = Node A e B" using tn by (cases t) auto
  obtain n kn dn where e: "e = (n, kn, dn)" by (cases e)
  obtain fa kf df where f: "f = (fa, kf, df)" by (cases f)
  obtain ga kg dg where g: "g = (ga, kg, dg)" by (cases g)
  let ?T = "Node (Node t f C) g D"
  let ?par = "ctx_par 0 c"
  have HT: "htree h ?par ?T" using H by (simp add: htree_plug)
  have DT: "distinct (addrs ?T)" using distinct_plug[OF Dd] by simp
  have hn: "h n = Some \<lparr>father = fa, left_son = rp A, right_son = rp B, key = kn, data = dn\<rparr>"
    and hf: "h fa = Some \<lparr>father = ga, left_son = n, right_son = rp C, key = kf, data = df\<rparr>"
    and hg: "h ga = Some \<lparr>father = ?par, left_son = fa, right_son = rp D, key = kg, data = dg\<rparr>"
    and nz: "n \<noteq> 0" "fa \<noteq> 0" "ga \<noteq> 0"
    and hC: "htree h fa C" and hD: "htree h ga D"
    using HT unfolding t e f g by auto
  have nC: "n \<notin> set (addrs C)" and nD: "n \<notin> set (addrs D)"
    using DT unfolding t e f g by auto
  obtain h1 where r1: "spli_right_rotation ga h = Inr h1"
    and t1: "htree h1 ?par (rot_right ?T)"
    and f1: "\<forall>x. x \<notin> set (addrs ?T) \<longrightarrow> h1 x = h x"
    using rot_right_heap[OF HT DT] unfolding g by auto
  have T1: "rot_right ?T = Node (Node A e B) (ga, kf, df) (Node C (fa, kg, dg) D)"
    unfolding t e f g by simp
  have D1: "distinct (addrs (rot_right ?T))" using DT by simp
  obtain h2 where r2: "spli_right_rotation ga h1 = Inr h2"
    and t2: "htree h2 ?par (rot_right (rot_right ?T))"
    and f2: "\<forall>x. x \<notin> set (addrs (rot_right ?T)) \<longrightarrow> h2 x = h1 x"
    using rot_right_heap[OF t1[unfolded T1] D1[unfolded T1]] unfolding T1 by auto
  have T2: "rot_right (rot_right ?T) = Node A (ga, kn, dn) (Node B (n, kf, df) (Node C (fa, kg, dg) D))"
    unfolding t e f g by simp
  have h2f: "h2 fa = Some \<lparr>father = n, left_son = rp C, right_son = rp D, key = kg, data = dg\<rparr>"
    and h2C: "htree h2 fa C" and h2D: "htree h2 fa D"
    using t2 unfolding T2 by auto
  have ne: "rp C \<noteq> n" "rp D \<noteq> n"
    using rp_neq[OF hC nC nz(1)] rp_neq[OF hD nD nz(1)] by auto
  have run: "spli_splay (rp t) h = Inr (ga, h2)"
    unfolding t e using hn hf hg nz r1 r2 h2f ne
    by (simp add: splay_unfold_grand[OF hn nz(1) _ nz(2) hf _ nz(3)] is_left_of_eval is_right_of_eval)
  have fr: "h2 x = h x" if "x \<notin> set (addrs ?T)" for x
    using f1 f2 that by simp
  have "htree h2 0 (plug (rot_right (rot_right ?T)) c)"
    using plug_replace[OF H Dd t2 _ fr] by simp
  then show ?thesis using run fr unfolding g by auto
qed


lemma splay_RR:
  assumes H: "htree h 0 (plug (Node A g (Node B f t)) c)"
    and Dd: "distinct (addrs (plug (Node A g (Node B f t)) c))"
    and tn: "t \<noteq> Leaf"
  shows "\<exists>h'. spli_splay (rp t) h = Inr (rp (Node A g (Node B f t)), h')
    \<and> htree h' 0 (plug (rot_left (rot_left (Node A g (Node B f t)))) c)
    \<and> (\<forall>x. x \<notin> set (addrs (Node A g (Node B f t))) \<longrightarrow> h' x = h x)"
proof -
  obtain A' e B' where t: "t = Node A' e B'" using tn by (cases t) auto
  obtain n kn dn where e: "e = (n, kn, dn)" by (cases e)
  obtain fa kf df where f: "f = (fa, kf, df)" by (cases f)
  obtain ga kg dg where g: "g = (ga, kg, dg)" by (cases g)
  let ?T = "Node A g (Node B f t)"
  let ?par = "ctx_par 0 c"
  have HT: "htree h ?par ?T" using H by (simp add: htree_plug)
  have DT: "distinct (addrs ?T)" using distinct_plug[OF Dd] by simp
  have hn: "h n = Some \<lparr>father = fa, left_son = rp A', right_son = rp B', key = kn, data = dn\<rparr>"
    and hf: "h fa = Some \<lparr>father = ga, left_son = rp B, right_son = n, key = kf, data = df\<rparr>"
    and hg: "h ga = Some \<lparr>father = ?par, left_son = rp A, right_son = fa, key = kg, data = dg\<rparr>"
    and nz: "n \<noteq> 0" "fa \<noteq> 0" "ga \<noteq> 0"
    and hA: "htree h ga A" and hB: "htree h fa B"
    using HT unfolding t e f g by auto
  have nA: "n \<notin> set (addrs A)" and nB: "n \<notin> set (addrs B)"
    using DT unfolding t e f g by auto
  have ne: "rp A \<noteq> n" "rp B \<noteq> n"
    using rp_neq[OF hA nA nz(1)] rp_neq[OF hB nB nz(1)] by auto
  obtain h1 where r1: "spli_left_rotation ga h = Inr h1"
    and t1: "htree h1 ?par (rot_left ?T)"
    and f1: "\<forall>x. x \<notin> set (addrs ?T) \<longrightarrow> h1 x = h x"
    using rot_left_heap[OF HT DT] unfolding g by auto
  have T1: "rot_left ?T = Node (Node A (fa, kg, dg) B) (ga, kf, df) (Node A' e B')"
    unfolding t e f g by simp
  have D1: "distinct (addrs (rot_left ?T))" using DT by simp
  obtain h2 where r2: "spli_left_rotation ga h1 = Inr h2"
    and t2: "htree h2 ?par (rot_left (rot_left ?T))"
    and f2: "\<forall>x. x \<notin> set (addrs (rot_left ?T)) \<longrightarrow> h2 x = h1 x"
    using rot_left_heap[OF t1[unfolded T1] D1[unfolded T1]] unfolding T1 by auto
  have T2: "rot_left (rot_left ?T) = Node (Node (Node A (fa, kg, dg) B) (n, kf, df) A') (ga, kn, dn) B'"
    unfolding t e f g by simp
  have h2f: "h2 fa = Some \<lparr>father = n, left_son = rp A, right_son = rp B, key = kg, data = dg\<rparr>"
    using t2 unfolding T2 by auto
  have run: "spli_splay (rp t) h = Inr (ga, h2)"
    unfolding t e using hn hf hg nz r1 r2 h2f ne
    by (simp add: splay_unfold_grand[OF hn nz(1) _ nz(2) hf _ nz(3)] is_left_of_eval is_right_of_eval)
  have fr: "h2 x = h x" if "x \<notin> set (addrs ?T)" for x
    using f1 f2 that by simp
  have "htree h2 0 (plug (rot_left (rot_left ?T)) c)"
    using plug_replace[OF H Dd t2 _ fr] by simp
  then show ?thesis using run fr unfolding g by auto
qed

lemma splay_LR:
  assumes H: "htree h 0 (plug (Node A g (Node t f C)) c)"
    and Dd: "distinct (addrs (plug (Node A g (Node t f C)) c))"
    and tn: "t \<noteq> Leaf"
  shows "\<exists>h'. spli_splay (rp t) h = Inr (rp (Node A g (Node t f C)), h')
    \<and> htree h' 0 (plug (rot_left (Node A g (rot_right (Node t f C)))) c)
    \<and> (\<forall>x. x \<notin> set (addrs (Node A g (Node t f C))) \<longrightarrow> h' x = h x)"
proof -
  obtain A' e B' where t: "t = Node A' e B'" using tn by (cases t) auto
  obtain n kn dn where e: "e = (n, kn, dn)" by (cases e)
  obtain fa kf df where f: "f = (fa, kf, df)" by (cases f)
  obtain ga kg dg where g: "g = (ga, kg, dg)" by (cases g)
  let ?S = "Node t f C"
  let ?T = "Node A g ?S"
  let ?par = "ctx_par 0 c"
  have HT: "htree h ?par ?T" using H by (simp add: htree_plug)
  have DT: "distinct (addrs ?T)" using distinct_plug[OF Dd] by simp
  have hn: "h n = Some \<lparr>father = fa, left_son = rp A', right_son = rp B', key = kn, data = dn\<rparr>"
    and hf: "h fa = Some \<lparr>father = ga, left_son = n, right_son = rp C, key = kf, data = df\<rparr>"
    and hg: "h ga = Some \<lparr>father = ?par, left_son = rp A, right_son = fa, key = kg, data = dg\<rparr>"
    and nz: "n \<noteq> 0" "fa \<noteq> 0" "ga \<noteq> 0"
    and hA: "htree h ga A" and hC: "htree h fa C" and hA': "htree h n A'"
    and HS: "htree h ga ?S"
    using HT unfolding t e f g by auto
  have nC: "n \<notin> set (addrs C)" and fA: "fa \<notin> set (addrs A)" and nA': "n \<notin> set (addrs A')"
    and DS: "distinct (addrs ?S)"
    using DT unfolding t e f g by auto
  have ne: "rp C \<noteq> n" "rp A \<noteq> fa" "rp A' \<noteq> n"
    using rp_neq[OF hC nC nz(1)] rp_neq[OF hA fA nz(2)] rp_neq[OF hA' nA' nz(1)] by auto
  obtain h1 where r1: "spli_right_rotation fa h = Inr h1"
    and t1: "htree h1 ga (rot_right ?S)"
    and f1: "\<forall>x. x \<notin> set (addrs ?S) \<longrightarrow> h1 x = h x"
    using rot_right_heap[OF HS[unfolded t] DS[unfolded t]] unfolding t f by auto
  have HT': "htree h ?par (plug ?S [RightHole A g])" using HT by simp
  have DT': "distinct (addrs (plug ?S [RightHole A g]))" using DT by simp
  have t1': "htree h1 ?par (Node A g (rot_right ?S))"
    using plug_replace[OF HT' DT', of h1 "rot_right ?S"] t1 f1 unfolding g by simp
  have S1: "rot_right ?S = Node A' (fa, kn, dn) (Node B' (n, kf, df) C)"
    unfolding t e f by simp
  have D1: "distinct (addrs (Node A g (rot_right ?S)))" using DT unfolding g by simp
  obtain h2 where r2: "spli_left_rotation ga h1 = Inr h2"
    and t2: "htree h2 ?par (rot_left (Node A g (rot_right ?S)))"
    and f2: "\<forall>x. x \<notin> set (addrs (Node A g (rot_right ?S))) \<longrightarrow> h2 x = h1 x"
    using rot_left_heap[OF t1'[unfolded S1] D1[unfolded S1]] unfolding S1 g by auto
  have T2: "rot_left (Node A g (rot_right ?S))
      = Node (Node A (fa, kg, dg) A') (ga, kn, dn) (Node B' (n, kf, df) C)"
    unfolding t e f g by simp
  have h2f: "h2 fa = Some \<lparr>father = ga, left_son = rp A, right_son = rp A', key = kg, data = dg\<rparr>"
    using t2 unfolding T2 by auto
  have run: "spli_splay (rp t) h = Inr (ga, h2)"
    unfolding t e using hn hf hg nz r1 r2 h2f ne
    by (simp add: splay_unfold_grand[OF hn nz(1) _ nz(2) hf _ nz(3)] is_left_of_eval is_right_of_eval)
  have fr: "h2 x = h x" if "x \<notin> set (addrs ?T)" for x
    using f1 f2 that by (cases g) simp
  have "htree h2 0 (plug (rot_left (Node A g (rot_right ?S))) c)"
    using plug_replace[OF H Dd t2 _ fr] by (cases g) simp
  then show ?thesis using run fr unfolding g by auto
qed

lemma splay_RL:
  assumes H: "htree h 0 (plug (Node (Node B f t) g D) c)"
    and Dd: "distinct (addrs (plug (Node (Node B f t) g D) c))"
    and tn: "t \<noteq> Leaf"
  shows "\<exists>h'. spli_splay (rp t) h = Inr (rp (Node (Node B f t) g D), h')
    \<and> htree h' 0 (plug (rot_right (Node (rot_left (Node B f t)) g D)) c)
    \<and> (\<forall>x. x \<notin> set (addrs (Node (Node B f t) g D)) \<longrightarrow> h' x = h x)"
proof -
  obtain A' e B' where t: "t = Node A' e B'" using tn by (cases t) auto
  obtain n kn dn where e: "e = (n, kn, dn)" by (cases e)
  obtain fa kf df where f: "f = (fa, kf, df)" by (cases f)
  obtain ga kg dg where g: "g = (ga, kg, dg)" by (cases g)
  let ?S = "Node B f t"
  let ?T = "Node ?S g D"
  let ?par = "ctx_par 0 c"
  have HT: "htree h ?par ?T" using H by (simp add: htree_plug)
  have DT: "distinct (addrs ?T)" using distinct_plug[OF Dd] by simp
  have hn: "h n = Some \<lparr>father = fa, left_son = rp A', right_son = rp B', key = kn, data = dn\<rparr>"
    and hf: "h fa = Some \<lparr>father = ga, left_son = rp B, right_son = n, key = kf, data = df\<rparr>"
    and hg: "h ga = Some \<lparr>father = ?par, left_son = fa, right_son = rp D, key = kg, data = dg\<rparr>"
    and nz: "n \<noteq> 0" "fa \<noteq> 0" "ga \<noteq> 0"
    and hB: "htree h fa B" and hD: "htree h ga D"
    and HS: "htree h ga ?S"
    using HT unfolding t e f g by auto
  have nB: "n \<notin> set (addrs B)" and fD: "fa \<notin> set (addrs D)"
    and DS: "distinct (addrs ?S)"
    using DT unfolding t e f g by auto
  have ne: "rp B \<noteq> n" "rp D \<noteq> fa"
    using rp_neq[OF hB nB nz(1)] rp_neq[OF hD fD nz(2)] by auto
  obtain h1 where r1: "spli_left_rotation fa h = Inr h1"
    and t1: "htree h1 ga (rot_left ?S)"
    and f1: "\<forall>x. x \<notin> set (addrs ?S) \<longrightarrow> h1 x = h x"
    using rot_left_heap[OF HS[unfolded t] DS[unfolded t]] unfolding t f by auto
  have HT': "htree h ?par (plug ?S [LeftHole g D])" using HT by simp
  have DT': "distinct (addrs (plug ?S [LeftHole g D]))" using DT by simp
  have t1': "htree h1 ?par (Node (rot_left ?S) g D)"
    using plug_replace[OF HT' DT', of h1 "rot_left ?S"] t1 f1 unfolding g by simp
  have S1: "rot_left ?S = Node (Node B (n, kf, df) A') (fa, kn, dn) B'"
    unfolding t e f by simp
  have D1: "distinct (addrs (Node (rot_left ?S) g D))" using DT unfolding g by simp
  obtain h2 where r2: "spli_right_rotation ga h1 = Inr h2"
    and t2: "htree h2 ?par (rot_right (Node (rot_left ?S) g D))"
    and f2: "\<forall>x. x \<notin> set (addrs (Node (rot_left ?S) g D)) \<longrightarrow> h2 x = h1 x"
    using rot_right_heap[OF t1'[unfolded S1] D1[unfolded S1]] unfolding S1 g by auto
  have run: "spli_splay (rp t) h = Inr (ga, h2)"
    unfolding t e using hn hf hg nz r1 r2 ne
    by (simp add: splay_unfold_grand[OF hn nz(1) _ nz(2) hf _ nz(3)] is_left_of_eval is_right_of_eval)
  have fr: "h2 x = h x" if "x \<notin> set (addrs ?T)" for x
    using f1 f2 that by (cases g) simp
  have "htree h2 0 (plug (rot_right (Node (rot_left ?S) g D)) c)"
    using plug_replace[OF H Dd t2 _ fr] by (cases g) simp
  then show ?thesis using run fr unfolding g by auto
qed

lemma splay_zig_L:
  assumes H: "htree h 0 (Node t f C)" and Dd: "distinct (addrs (Node t f C))" and tn: "t \<noteq> Leaf"
  shows "\<exists>h'. spli_splay (rp t) h = Inr (rp (Node t f C), h')
    \<and> htree h' 0 (rot_right (Node t f C))
    \<and> (\<forall>x. x \<notin> set (addrs (Node t f C)) \<longrightarrow> h' x = h x)"
proof -
  obtain A' e B' where t: "t = Node A' e B'" using tn by (cases t) auto
  obtain n kn dn where e: "e = (n, kn, dn)" by (cases e)
  obtain fa kf df where f: "f = (fa, kf, df)" by (cases f)
  have hn: "h n = Some \<lparr>father = fa, left_son = rp A', right_son = rp B', key = kn, data = dn\<rparr>"
    and hf: "h fa = Some \<lparr>father = 0, left_son = n, right_son = rp C, key = kf, data = df\<rparr>"
    and nz: "n \<noteq> 0" "fa \<noteq> 0"
    using H unfolding t e f by auto
  obtain h1 where r1: "spli_right_rotation fa h = Inr h1"
    and t1: "htree h1 0 (rot_right (Node t f C))"
    and f1: "\<forall>x. x \<notin> set (addrs (Node t f C)) \<longrightarrow> h1 x = h x"
    using rot_right_heap[OF H[unfolded t] Dd[unfolded t]] unfolding t f by auto
  have run: "spli_splay (rp t) h = Inr (fa, h1)"
    unfolding t e using splay_unfold_root[where h = h and n = n, OF hn nz(1)] hf nz r1 by simp
  show ?thesis using run t1 f1 unfolding f by auto
qed

lemma splay_zig_R:
  assumes H: "htree h 0 (Node B f t)" and Dd: "distinct (addrs (Node B f t))" and tn: "t \<noteq> Leaf"
  shows "\<exists>h'. spli_splay (rp t) h = Inr (rp (Node B f t), h')
    \<and> htree h' 0 (rot_left (Node B f t))
    \<and> (\<forall>x. x \<notin> set (addrs (Node B f t)) \<longrightarrow> h' x = h x)"
proof -
  obtain A' e B' where t: "t = Node A' e B'" using tn by (cases t) auto
  obtain n kn dn where e: "e = (n, kn, dn)" by (cases e)
  obtain fa kf df where f: "f = (fa, kf, df)" by (cases f)
  have hn: "h n = Some \<lparr>father = fa, left_son = rp A', right_son = rp B', key = kn, data = dn\<rparr>"
    and hf: "h fa = Some \<lparr>father = 0, left_son = rp B, right_son = n, key = kf, data = df\<rparr>"
    and nz: "n \<noteq> 0" "fa \<noteq> 0" and hB: "htree h fa B"
    using H unfolding t e f by auto
  have nB: "n \<notin> set (addrs B)" using Dd unfolding t e f by auto
  have ne: "rp B \<noteq> n" using rp_neq[OF hB nB nz(1)] .
  obtain h1 where r1: "spli_left_rotation fa h = Inr h1"
    and t1: "htree h1 0 (rot_left (Node B f t))"
    and f1: "\<forall>x. x \<notin> set (addrs (Node B f t)) \<longrightarrow> h1 x = h x"
    using rot_left_heap[OF H[unfolded t] Dd[unfolded t]] unfolding t f by auto
  have run: "spli_splay (rp t) h = Inr (fa, h1)"
    unfolding t e using splay_unfold_root[where h = h and n = n, OF hn nz(1)] hf nz r1 ne by simp
  show ?thesis using run t1 f1 unfolding f by auto
qed

lemma items_simps [simp]:
  "items Leaf = []"
  "items (Node l (a, k, d) r) = items l @ (k, d) # items r"
  by (simp_all add: items_def)

lemma root_form_Node [simp]:
  "root_form (Node L e R) a k d xs ys = (e = (a, k, d) \<and> items L = xs \<and> items R = ys)"
  by (simp add: root_form_def)

lemma root_form_Leaf [simp]: "\<not> root_form Leaf a k d xs ys"
  by (simp add: root_form_def)

lemma root_formE:
  assumes "root_form t a k d xs ys"
  obtains L R where "t = Node L (a, k, d) R" "items L = xs" "items R = ys"
  using assms by (cases t) auto

lemma splay_step1_root_form:
  assumes "root_form t a k d xs ys"
  shows "root_form (splay_step1 t f) (faddr f) k d
           (map snd (before [f]) @ xs) (ys @ map snd (after [f]))"
proof -
  obtain L R where t: "t = Node L (a, k, d) R" "items L = xs" "items R = ys"
    using assms by (rule root_formE)
  show ?thesis
  proof (cases f)
    case (LeftHole e C)
    then show ?thesis using t by (cases e) (simp add: items_def)
  next
    case (RightHole B e)
    then show ?thesis using t by (cases e) (simp add: items_def)
  qed
qed

lemma splay_step2_root_form:
  assumes "root_form t a k d xs ys"
  shows "root_form (splay_step2 t f1 f2) (faddr f2) k d
           (map snd (before [f1, f2]) @ xs) (ys @ map snd (after [f1, f2]))"
proof -
  obtain L R where t: "t = Node L (a, k, d) R" "items L = xs" "items R = ys"
    using assms by (rule root_formE)
  show ?thesis
  proof (cases f1; cases f2)
    fix e1 C e2 D assume "f1 = LeftHole e1 C" "f2 = LeftHole e2 D"
    then show ?thesis using t by (cases e1; cases e2) (simp add: items_def)
  next
    fix e1 C A e2 assume "f1 = LeftHole e1 C" "f2 = RightHole A e2"
    then show ?thesis using t by (cases e1; cases e2) (simp add: items_def)
  next
    fix B e1 e2 D assume "f1 = RightHole B e1" "f2 = LeftHole e2 D"
    then show ?thesis using t by (cases e1; cases e2) (simp add: items_def)
  next
    fix B e1 A e2 assume "f1 = RightHole B e1" "f2 = RightHole A e2"
    then show ?thesis using t by (cases e1; cases e2) (simp add: items_def)
  qed
qed

lemma addrs_Node: "addrs (Node l e r) = addrs l @ fst e # addrs r"
  by (simp add: addrs_def)

lemma splay_step1_addrs:
  "t \<noteq> Leaf \<Longrightarrow> mset (addrs (splay_step1 t f)) = mset (addrs (plug t [f]))"
  by (cases f) (auto simp add: addrs_Node)

lemma splay_step2_addrs:
  "t \<noteq> Leaf \<Longrightarrow> mset (addrs (splay_step2 t f1 f2)) = mset (addrs (plug t [f1, f2]))"
  by (cases f1; cases f2) (auto simp add: addrs_Node)

lemma splay_step1_heap:
  assumes "htree h 0 (plug t [f])" "distinct (addrs (plug t [f]))" "t \<noteq> Leaf"
  shows "\<exists>h'. spli_splay (rp t) h = Inr (faddr f, h')
    \<and> htree h' 0 (splay_step1 t f)
    \<and> (\<forall>x. x \<notin> set (addrs (plug t [f])) \<longrightarrow> h' x = h x)"
proof (cases f)
  case (LeftHole e C)
  then show ?thesis using splay_zig_L[of h t e C] assms by (cases e) auto
next
  case (RightHole B e)
  then show ?thesis using splay_zig_R[of h B e t] assms by (cases e) auto
qed

lemma splay_step2_heap:
  assumes "htree h 0 (plug t (f1 # f2 # c))" "distinct (addrs (plug t (f1 # f2 # c)))" "t \<noteq> Leaf"
  shows "\<exists>h'. spli_splay (rp t) h = Inr (faddr f2, h')
    \<and> htree h' 0 (plug (splay_step2 t f1 f2) c)
    \<and> (\<forall>x. x \<notin> set (addrs (plug t [f1, f2])) \<longrightarrow> h' x = h x)"
proof (cases f1; cases f2)
  fix e1 C e2 D assume "f1 = LeftHole e1 C" "f2 = LeftHole e2 D"
  then show ?thesis using splay_LL[of h t e1 C e2 D c] assms by (cases e2) auto
next
  fix e1 C A e2 assume "f1 = LeftHole e1 C" "f2 = RightHole A e2"
  then show ?thesis using splay_LR[of h A e2 t e1 C c] assms by (cases e2) auto
next
  fix B e1 e2 D assume "f1 = RightHole B e1" "f2 = LeftHole e2 D"
  then show ?thesis using splay_RL[of h B e1 t e2 D c] assms by (cases e2) auto
next
  fix B e1 A e2 assume "f1 = RightHole B e1" "f2 = RightHole A e2"
  then show ?thesis using splay_RR[of h A e2 B e1 t c] assms by (cases e2) auto
qed

section \<open>The splay to the root\<close>

lemma root_form_ex: "t \<noteq> Leaf \<Longrightarrow> \<exists>a k d. root_form t a k d (items (left t)) (items (right t))"
  by (cases t) auto

lemma root_form_rp: "root_form t a k d xs ys \<Longrightarrow> rp t = a \<and> t \<noteq> Leaf"
  by (cases t) auto

lemma splay_step2_rp: "t \<noteq> Leaf \<Longrightarrow> rp (splay_step2 t f1 f2) = faddr f2 \<and> splay_step2 t f1 f2 \<noteq> Leaf"
  using root_form_ex[of t] splay_step2_root_form[of t _ _ _ _ _ f1 f2] root_form_rp by blast

lemma splay_step1_rp: "t \<noteq> Leaf \<Longrightarrow> rp (splay_step1 t f) = faddr f \<and> splay_step1 t f \<noteq> Leaf"
  using root_form_ex[of t] splay_step1_root_form[of t _ _ _ _ _ f] root_form_rp by blast

lemma plug_plug: "plug t (f1 # f2 # c) = plug (plug t [f1, f2]) c"
  by (cases f1; cases f2) simp_all

lemma mset_addrs_plug_cong:
  "mset (addrs t') = mset (addrs t) \<Longrightarrow> mset (addrs (plug t' c)) = mset (addrs (plug t c))"
  by (simp add: addrs_plug)

lemma mset_eq_distinct: "mset xs = mset ys \<Longrightarrow> distinct xs = distinct ys"
  by (metis distinct_count_atmost_1 set_mset_mset)

lemma rp_plug_neq:
  assumes "distinct (addrs (plug t c))" "t \<noteq> Leaf" "c \<noteq> []"
  shows "rp (plug t c) \<noteq> rp t"
proof -
  have "rp (plug t c) \<in> set (caddrs c)"
    using assms(3) by (simp add: rp_plug faddr_in_caddrs)
  moreover have "rp t \<in> set (addrs t)" using assms(2) by (rule rp_in_addrs)
  ultimately show ?thesis using distinct_plug[OF assms(1)] by auto
qed

lemma splay_loop_heap:
  assumes "htree h 0 (plug t c)" "distinct (addrs (plug t c))" "t \<noteq> Leaf" "length c < fuel"
  shows "\<exists>h'. splay_loop fuel (rp (plug t c)) (rp t) h = Inr (rp (plug t c), h')
    \<and> htree h' 0 (splay_up t c)
    \<and> (\<forall>x. x \<notin> set (addrs (plug t c)) \<longrightarrow> h' x = h x)"
  using assms
proof (induction t c arbitrary: h fuel rule: splay_up.induct)
  case (1 t)
  then obtain n where "fuel = Suc n" by (cases fuel) auto
  then show ?case using 1 by simp
next
  case (2 t f)
  then obtain n where fuel: "fuel = Suc (Suc n)" by (cases fuel; cases "fuel - 1") auto
  have ne: "rp (plug t [f]) \<noteq> rp t" using rp_plug_neq[OF 2(2,3)] by simp
  have top: "rp (plug t [f]) = faddr f" by (simp add: rp_plug)
  obtain h' where "spli_splay (rp t) h = Inr (faddr f, h')" "htree h' 0 (splay_step1 t f)"
    "\<forall>x. x \<notin> set (addrs (plug t [f])) \<longrightarrow> h' x = h x"
    using splay_step1_heap[OF 2(1,2,3)] by blast
  then show ?case using ne top fuel by simp
next
  case (3 t f1 f2 c)
  let ?t2 = "splay_step2 t f1 f2"
  obtain n where fuel: "fuel = Suc n" "length c < n" using 3(5) by (cases fuel) auto
  have ne: "rp (plug t (f1 # f2 # c)) \<noteq> rp t" using rp_plug_neq[OF 3(3,4)] by simp
  obtain h1 where s: "spli_splay (rp t) h = Inr (faddr f2, h1)"
    and t1: "htree h1 0 (plug ?t2 c)"
    and f1: "\<forall>x. x \<notin> set (addrs (plug t [f1, f2])) \<longrightarrow> h1 x = h x"
    using splay_step2_heap[OF 3(2,3,4)] by blast
  have r2: "rp ?t2 = faddr f2" "?t2 \<noteq> Leaf" using splay_step2_rp[OF 3(4)] by auto
  have pp: "plug t (f1 # f2 # c) = plug (plug t [f1, f2]) c" by (rule plug_plug)
  have m: "mset (addrs (plug ?t2 c)) = mset (addrs (plug t (f1 # f2 # c)))"
    unfolding pp by (intro mset_addrs_plug_cong splay_step2_addrs 3(4))
  have d2: "distinct (addrs (plug ?t2 c))" using mset_eq_distinct[OF m] 3(3) by simp
  have top: "rp (plug ?t2 c) = rp (plug t (f1 # f2 # c))"
    using r2 by (cases f2 rule: faddr.cases) (auto simp add: rp_plug)
  obtain h' where l: "splay_loop n (rp (plug ?t2 c)) (rp ?t2) h1 = Inr (rp (plug ?t2 c), h')"
    and t': "htree h' 0 (splay_up ?t2 c)"
    and f': "\<forall>x. x \<notin> set (addrs (plug ?t2 c)) \<longrightarrow> h' x = h1 x"
    using 3(1)[OF t1 d2 r2(2) fuel(2)] by blast
  have sub: "set (addrs (plug t [f1, f2])) \<subseteq> set (addrs (plug t (f1 # f2 # c)))"
    unfolding pp by (auto simp add: set_addrs_plug)
  have fr: "\<forall>x. x \<notin> set (addrs (plug t (f1 # f2 # c))) \<longrightarrow> h' x = h x"
    using f1 f' sub mset_eq_setD[OF m] by auto
  show ?case using ne s l t' fr fuel r2 top by simp
qed

lemma splay_up_root_form:
  "root_form t a k d xs ys \<Longrightarrow>
   root_form (splay_up t c) (rp (plug t c)) k d (map snd (before c) @ xs) (ys @ map snd (after c))"
proof (induction t c arbitrary: a xs ys rule: splay_up.induct)
  case (1 t)
  then show ?case using root_form_rp[OF 1] by simp
next
  case (2 t f)
  then show ?case using splay_step1_root_form[OF 2, of f] by (simp add: rp_plug)
next
  case (3 t f1 f2 c)
  have t: "t \<noteq> Leaf" using root_form_rp[OF 3(2)] by simp
  have "rp (plug (splay_step2 t f1 f2) c) = rp (plug t (f1 # f2 # c))"
    using splay_step2_rp[OF t] by (cases f2 rule: faddr.cases) (auto simp add: rp_plug)
  moreover have "before (f1 # f2 # c) = before c @ before [f1, f2]"
    "after (f1 # f2 # c) = after [f1, f2] @ after c"
    by (cases f1; cases f2; simp)+
  ultimately show ?case using 3(1)[OF splay_step2_root_form[OF 3(2), of f1 f2]] by simp
qed

lemma splay_up_addrs: "t \<noteq> Leaf \<Longrightarrow> mset (addrs (splay_up t c)) = mset (addrs (plug t c))"
proof (induction t c rule: splay_up.induct)
  case (1 t)
  then show ?case by simp
next
  case (2 t f)
  then show ?case by (simp add: splay_step1_addrs)
next
  case (3 t f1 f2 c)
  have pp: "plug t (f1 # f2 # c) = plug (plug t [f1, f2]) c" by (rule plug_plug)
  have "mset (addrs (plug (splay_step2 t f1 f2) c)) = mset (addrs (plug t (f1 # f2 # c)))"
    unfolding pp by (intro mset_addrs_plug_cong splay_step2_addrs 3(2))
  then show ?case using 3 splay_step2_rp[OF 3(2)] by simp
qed

section \<open>The descents\<close>

lemma sint_eq_0: "(sint (x :: 32 word) = 0) = (x = 0)"
  by (rule signed_eq_0_iff)

lemma find_ctx_plug:
  "find_ctx k s c = Some (s', c') \<Longrightarrow>
   plug s' c' = plug s c \<and> (\<exists>l a d r. s' = Node l (a, k, d) r)"
proof (induction k s c rule: find_ctx.induct)
  case (1 k c)
  then show ?case by simp
next
  case (2 k l a ka d r c)
  show ?case
  proof (cases "0 < sint (ka - k)")
    case True
    then show ?thesis using 2 by simp
  next
    case False
    show ?thesis
    proof (cases "sint (ka - k) < 0")
      case True
      then show ?thesis using 2 False by simp
    next
      case F2: False
      then have "sint (ka - k) = 0" using False by simp
      then have "ka = k" by (simp add: sint_eq_0)
      then show ?thesis using 2(3) False F2 by auto
    qed
  qed
qed

lemma search_loop_heap:
  "htree h par s \<Longrightarrow> height s < fuel \<Longrightarrow>
   search_loop fuel (rp s) k h =
     Inr (case find_ctx k s c of None \<Rightarrow> 0 | Some (s', c') \<Rightarrow> rp s')"
proof (induction k s c arbitrary: fuel par rule: find_ctx.induct)
  case (1 k c)
  then show ?case by (cases fuel) auto
next
  case (2 k l a ka d r c)
  then obtain n where fuel: "fuel = Suc n" "height l < n" "height r < n"
    by (cases fuel) auto
  have h: "h a = Some \<lparr>father = par, left_son = rp l, right_son = rp r, key = ka, data = d\<rparr>"
    "a \<noteq> 0" "htree h a l" "htree h a r"
    using 2(3) by auto
  show ?case
    using 2(1)[OF _ h(3) fuel(2)] 2(2)[OF _ _ h(4) fuel(3)] h(1,2) fuel(1)
    by (simp add: deref_def Let_def)
qed

lemma ins_ctx_plug: "plug Leaf (ins_ctx k s c) = plug s c"
  by (induction k s c rule: ins_ctx.induct) auto

lemma insert_descend_heap:
  "htree h par s \<Longrightarrow> height s < fuel \<Longrightarrow> pred = ctx_par p0 c \<Longrightarrow>
   insert_descend fuel (rp s) pred k h = Inr (ctx_par p0 (ins_ctx k s c))"
proof (induction k s c arbitrary: fuel par pred rule: ins_ctx.induct)
  case (1 k c)
  then show ?case by (cases fuel) auto
next
  case (2 k l a ka d r c)
  then obtain n where fuel: "fuel = Suc n" "height l < n" "height r < n"
    by (cases fuel) auto
  have h: "h a = Some \<lparr>father = par, left_son = rp l, right_son = rp r, key = ka, data = d\<rparr>"
    "a \<noteq> 0" "htree h a l" "htree h a r"
    using 2(3) by auto
  show ?case
    using 2(1)[OF _ h(3) fuel(2)] 2(2)[OF _ h(4) fuel(3)] h(1,2) fuel(1)
    by (simp add: deref_def Let_def)
qed

text \<open>The frame on top of the path of an insertion tells the side the new node goes to.\<close>

lemma ins_ctx_top:
  "s \<noteq> Leaf \<Longrightarrow>
   \<exists>f c'. ins_ctx k s c = f # c' \<and>
     (case f of LeftHole (a, ka, d) r \<Rightarrow> 0 \<le> sint (ka - k)
              | RightHole l (a, ka, d) \<Rightarrow> \<not> 0 \<le> sint (ka - k))"
proof (induction k s c rule: ins_ctx.induct)
  case (1 k c)
  then show ?case by simp
next
  case (2 k l a ka d r c)
  show ?case
  proof (cases "0 \<le> sint (ka - k)")
    case True
    then show ?thesis using 2(1) by (cases l) auto
  next
    case False
    then show ?thesis using 2(2) by (cases r) auto
  qed
qed

lemma max_ctx_facts:
  "s \<noteq> Leaf \<Longrightarrow> max_ctx s c = (m, cm) \<Longrightarrow>
   plug m cm = plug s c \<and> m \<noteq> Leaf \<and> right m = Leaf \<and> after cm = after c"
proof (induction s c rule: max_ctx.induct)
  case (1 c)
  then show ?case by simp
next
  case (2 l x r c)
  then show ?case by (cases "r = Leaf") auto
qed

lemma max_key_son_heap:
  "htree h par s \<Longrightarrow> s \<noteq> Leaf \<Longrightarrow> height s \<le> fuel \<Longrightarrow>
   spli_max_key_son fuel (rp s) h = Inr (rp (fst (max_ctx s c)))"
proof (induction s c arbitrary: fuel par rule: max_ctx.induct)
  case (1 c)
  then show ?case by simp
next
  case (2 l x r c)
  obtain a k d where x: "x = (a, k, d)" by (cases x)
  obtain n where fuel: "fuel = Suc n" "height r \<le> n" using 2(4) by (cases fuel) auto
  have h: "h a = Some \<lparr>father = par, left_son = rp l, right_son = rp r, key = k, data = d\<rparr>"
    "htree h a r"
    using 2(2) x by auto
  show ?case
  proof (cases "r = Leaf")
    case True
    then show ?thesis using h fuel x by (simp add: deref_def)
  next
    case False
    then have "rp r \<noteq> 0" using htree_rp_nz[OF h(2)] by simp
    then show ?thesis using 2(1)[OF False h(2) False fuel(2)] False h fuel x
      by (simp add: deref_def)
  qed
qed

section \<open>Cutting and hanging subtrees\<close>

lemma cut_left_heap:
  assumes H: "htree h par (Node L (a, k, d) R)" and D: "distinct (addrs (Node L (a, k, d) R))"
  shows "\<exists>h'. spli_cut_left_subtree a h = Inr (rp L, h')
    \<and> h' a = Some \<lparr>father = par, left_son = 0, right_son = rp R, key = k, data = d\<rparr>
    \<and> htree h' 0 L
    \<and> (\<forall>x. x \<noteq> a \<and> x \<notin> set (addrs L) \<longrightarrow> h' x = h x)"
proof (cases L)
  case Leaf
  then show ?thesis using H by (simp add: prim_defs)
next
  case (Node L1 e L2)
  obtain b kb db where e: "e = (b, kb, db)" by (cases e)
  have ha: "h a = Some \<lparr>father = par, left_son = b, right_son = rp R, key = k, data = d\<rparr>"
    and hb: "h b = Some \<lparr>father = a, left_son = rp L1, right_son = rp L2, key = kb, data = db\<rparr>"
    and hL: "htree h a L" and b0: "b \<noteq> 0"
    using H Node e by auto
  have ab: "a \<noteq> b" and dL: "distinct (addrs L)" and aL: "a \<notin> set (addrs L)"
    using D Node e by auto
  let ?h' = "h(b \<mapsto> \<lparr>father = 0, left_son = rp L1, right_son = rp L2, key = kb, data = db\<rparr>,
               a \<mapsto> \<lparr>father = par, left_son = 0, right_son = rp R, key = k, data = d\<rparr>)"
  have run: "spli_cut_left_subtree a h = Inr (rp L, ?h')"
    using ha hb ab b0 Node e by (simp add: prim_defs)
  have "htree ?h' 0 L"
    using hb ab aL Node e by (intro htree_reroot[OF hL dL]) auto
  then show ?thesis using run ab Node e by auto
qed

lemma cut_right_heap:
  assumes H: "htree h par (Node L (a, k, d) R)" and D: "distinct (addrs (Node L (a, k, d) R))"
  shows "\<exists>h'. spli_cut_right_subtree a h = Inr (rp R, h')
    \<and> h' a = Some \<lparr>father = par, left_son = rp L, right_son = 0, key = k, data = d\<rparr>
    \<and> htree h' 0 R
    \<and> (\<forall>x. x \<noteq> a \<and> x \<notin> set (addrs R) \<longrightarrow> h' x = h x)"
proof (cases R)
  case Leaf
  then show ?thesis using H by (simp add: prim_defs)
next
  case (Node R1 e R2)
  obtain b kb db where e: "e = (b, kb, db)" by (cases e)
  have ha: "h a = Some \<lparr>father = par, left_son = rp L, right_son = b, key = k, data = d\<rparr>"
    and hb: "h b = Some \<lparr>father = a, left_son = rp R1, right_son = rp R2, key = kb, data = db\<rparr>"
    and hR: "htree h a R" and b0: "b \<noteq> 0"
    using H Node e by auto
  have ab: "a \<noteq> b" and dR: "distinct (addrs R)" and aR: "a \<notin> set (addrs R)"
    using D Node e by auto
  let ?h' = "h(b \<mapsto> \<lparr>father = 0, left_son = rp R1, right_son = rp R2, key = kb, data = db\<rparr>,
               a \<mapsto> \<lparr>father = par, left_son = rp L, right_son = 0, key = k, data = d\<rparr>)"
  have run: "spli_cut_right_subtree a h = Inr (rp R, ?h')"
    using ha hb ab b0 Node e by (simp add: prim_defs)
  have "htree ?h' 0 R"
    using hb ab aR Node e by (intro htree_reroot[OF hR dR]) auto
  then show ?thesis using run ab Node e by auto
qed

text \<open>Hanging a tree whose root has no father under the right of a node without right son.\<close>

lemma insert_right_heap:
  assumes ha: "h a = Some \<lparr>father = par, left_son = lp, right_son = x, key = k, data = d\<rparr>"
    and HR: "htree h p R" and dR: "distinct (addrs R)" and aR: "a \<notin> set (addrs R)"
  shows "\<exists>h'. spli_insert_right_subtree a (rp R) h = Inr h'
    \<and> h' a = Some \<lparr>father = par, left_son = lp, right_son = rp R, key = k, data = d\<rparr>
    \<and> htree h' a R
    \<and> (\<forall>x. x \<noteq> a \<and> x \<notin> set (addrs R) \<longrightarrow> h' x = h x)"
proof (cases R)
  case Leaf
  then show ?thesis using ha by (simp add: prim_defs)
next
  case (Node R1 e R2)
  obtain b kb db where e: "e = (b, kb, db)" by (cases e)
  have hb: "h b = Some \<lparr>father = p, left_son = rp R1, right_son = rp R2, key = kb, data = db\<rparr>"
    and b0: "b \<noteq> 0"
    using HR Node e by auto
  have ab: "a \<noteq> b" using aR Node e by auto
  let ?h' = "h(b \<mapsto> \<lparr>father = a, left_son = rp R1, right_son = rp R2, key = kb, data = db\<rparr>,
               a \<mapsto> \<lparr>father = par, left_son = lp, right_son = rp R, key = k, data = d\<rparr>)"
  have run: "spli_insert_right_subtree a (rp R) h = Inr ?h'"
    using ha hb ab b0 Node e by (simp add: prim_defs)
  have "htree ?h' a R"
    using hb ab aR Node e by (intro htree_reroot[OF HR dR]) auto
  then show ?thesis using run ab Node e by auto
qed

section \<open>Insertion\<close>

lemma length_ins_ctx: "length (ins_ctx k s c) \<le> height s + length c"
  by (induction k s c rule: ins_ctx.induct) auto

lemma length_addrs [simp]: "length (addrs t) = size t"
  by (simp add: addrs_def length_inorder)

lemma addrs_plug_Leaf: "addrs (plug Leaf c) = caddrs c"
  by (simp add: addrs_plug caddrs_def)

lemma caddrs_distinct_L:
  "distinct (caddrs (LeftHole (p, k, d) r # c)) \<Longrightarrow>
   p \<notin> set (addrs r) \<and> p \<notin> set (caddrs c) \<and> distinct (caddrs c)"
  by (auto simp add: caddrs_def addrs_def)

lemma caddrs_distinct_R:
  "distinct (caddrs (RightHole l (p, k, d) # c)) \<Longrightarrow>
   p \<notin> set (addrs l) \<and> p \<notin> set (caddrs c) \<and> distinct (caddrs c)"
  by (auto simp add: caddrs_def addrs_def)

lemma attach_heap:
  assumes HC: "hctx h0 0 0 (f # c')" and Dc: "distinct (caddrs (f # c'))"
    and a0: "a \<noteq> 0" and ac: "a \<notin> set (caddrs (f # c'))"
    and ha: "h0 a = Some \<lparr>father = 0, left_son = 0, right_son = 0, key = k, data = d\<rparr>"
    and side: "case f of LeftHole (p, kp, dp) r \<Rightarrow> 0 \<le> sint (kp - k)
                       | RightHole l (p, kp, dp) \<Rightarrow> \<not> 0 \<le> sint (kp - k)"
  shows "\<exists>h2. bnd (deref h0 (faddr f)) (\<lambda>p.
             if 0 \<le> sint (key p - k) then spli_insert_left_subtree (faddr f) a h0
             else spli_insert_right_subtree (faddr f) a h0) = Inr h2
    \<and> htree h2 0 (plug (Node Leaf (a, k, d) Leaf) (f # c'))
    \<and> (\<forall>x. x \<noteq> a \<and> x \<noteq> faddr f \<longrightarrow> h2 x = h0 x)"
proof (cases f)
  case (LeftHole e r)
  obtain p kp dp where e: "e = (p, kp, dp)" by (cases e)
  have hp: "h0 p = Some \<lparr>father = ctx_par 0 c', left_son = 0, right_son = rp r, key = kp, data = dp\<rparr>"
    and p0: "p \<noteq> 0" and hr: "htree h0 p r" and hc: "hctx h0 0 p c'"
    using HC LeftHole e by auto
  have pr: "p \<notin> set (addrs r)" "p \<notin> set (caddrs c')"
    using caddrs_distinct_L Dc LeftHole e by auto
  have ar: "a \<noteq> p" "a \<notin> set (addrs r)" "a \<notin> set (caddrs c')"
    using ac LeftHole e by auto
  have cmp: "0 \<le> sint (kp - k)" using side LeftHole e by simp
  let ?h2 = "h0(a \<mapsto> \<lparr>father = p, left_son = 0, right_son = 0, key = k, data = d\<rparr>,
                p \<mapsto> \<lparr>father = ctx_par 0 c', left_son = a, right_son = rp r, key = kp, data = dp\<rparr>)"
  have run: "bnd (deref h0 (faddr f)) (\<lambda>p.
             if 0 \<le> sint (key p - k) then spli_insert_left_subtree (faddr f) a h0
             else spli_insert_right_subtree (faddr f) a h0) = Inr ?h2"
    using hp ha a0 ar(1) cmp LeftHole e by (simp add: prim_defs)
  have "htree ?h2 p r = htree h0 p r" using pr ar by (intro htree_frame) auto
  moreover have "hctx ?h2 0 p c' = hctx h0 0 p c'" using pr ar by (intro hctx_frame) auto
  ultimately have "htree ?h2 0 (plug (Node Leaf (a, k, d) Leaf) (f # c'))"
    using hr hc a0 p0 ar(1) LeftHole e by (simp add: htree_plug)
  then show ?thesis using run LeftHole e by auto
next
  case (RightHole l e)
  obtain p kp dp where e: "e = (p, kp, dp)" by (cases e)
  have hp: "h0 p = Some \<lparr>father = ctx_par 0 c', left_son = rp l, right_son = 0, key = kp, data = dp\<rparr>"
    and p0: "p \<noteq> 0" and hr: "htree h0 p l" and hc: "hctx h0 0 p c'"
    using HC RightHole e by auto
  have pr: "p \<notin> set (addrs l)" "p \<notin> set (caddrs c')"
    using caddrs_distinct_R Dc RightHole e by auto
  have ar: "a \<noteq> p" "a \<notin> set (addrs l)" "a \<notin> set (caddrs c')"
    using ac RightHole e by auto
  have cmp: "\<not> 0 \<le> sint (kp - k)" using side RightHole e by simp
  let ?h2 = "h0(a \<mapsto> \<lparr>father = p, left_son = 0, right_son = 0, key = k, data = d\<rparr>,
                p \<mapsto> \<lparr>father = ctx_par 0 c', left_son = rp l, right_son = a, key = kp, data = dp\<rparr>)"
  have run: "bnd (deref h0 (faddr f)) (\<lambda>p.
             if 0 \<le> sint (key p - k) then spli_insert_left_subtree (faddr f) a h0
             else spli_insert_right_subtree (faddr f) a h0) = Inr ?h2"
    using hp ha a0 ar(1) cmp RightHole e by (simp add: prim_defs)
  have "htree ?h2 p l = htree h0 p l" using pr ar by (intro htree_frame) auto
  moreover have "hctx ?h2 0 p c' = hctx h0 0 p c'" using pr ar by (intro hctx_frame) auto
  ultimately have "htree ?h2 0 (plug (Node Leaf (a, k, d) Leaf) (f # c'))"
    using hr hc a0 p0 ar(1) RightHole e by (simp add: htree_plug)
  then show ?thesis using run RightHole e by auto
qed

lemma insert_nonempty_heap:
  assumes H: "htree h 0 t" and D: "distinct (addrs t)" and tn: "t \<noteq> Leaf"
    and a0: "a \<noteq> 0" and at: "a \<notin> set (addrs t)" and fuel: "size t < fuel"
    and h0: "h0 = h(a \<mapsto> \<lparr>father = 0, left_son = 0, right_son = 0, key = k, data = d\<rparr>)"
  shows "\<exists>pred p h2 h'. insert_descend fuel (rp t) 0 k h0 = Inr pred
    \<and> deref h0 pred = Inr p
    \<and> (if 0 \<le> sint (key p - k) then spli_insert_left_subtree pred a h0
        else spli_insert_right_subtree pred a h0) = Inr h2
    \<and> splay_loop fuel (rp t) a h2 = Inr (rp t, h')
    \<and> htree h' 0 (tree_insert a k d t)
    \<and> (\<forall>x. x \<noteq> a \<and> x \<notin> set (addrs t) \<longrightarrow> h' x = h x)"
proof -
  let ?N = "Node Leaf (a, k, d) Leaf"
  define ctx where "ctx = ins_ctx k t []"
  obtain f c' where ctx: "ctx = f # c'"
    and side: "case f of LeftHole (p, kp, dp) r \<Rightarrow> 0 \<le> sint (kp - k)
                       | RightHole l (p, kp, dp) \<Rightarrow> \<not> 0 \<le> sint (kp - k)"
    using ins_ctx_top[OF tn, of k "[]"] unfolding ctx_def by blast
  have pl: "plug Leaf ctx = t" unfolding ctx_def by (simp add: ins_ctx_plug)
  have H0: "htree h0 0 t" using H at unfolding h0 by simp
  have ht: "height t < fuel" using fuel height_le_size_tree[of t] by simp
  have desc: "insert_descend fuel (rp t) 0 k h0 = Inr (faddr f)"
    using insert_descend_heap[OF H0 ht, of 0 0 "[]" k] ctx unfolding ctx_def by simp
  have HC: "hctx h0 0 0 (f # c')"
    using H0 unfolding pl[symmetric] ctx by (simp add: htree_plug)
  have ca: "caddrs ctx = addrs t" using pl addrs_plug_Leaf[of ctx] by simp
  have Dc: "distinct (caddrs (f # c'))" and ac: "a \<notin> set (caddrs (f # c'))"
    using D at ca ctx by auto
  have ha: "h0 a = Some \<lparr>father = 0, left_son = 0, right_son = 0, key = k, data = d\<rparr>"
    unfolding h0 by simp
  obtain h2 where att: "bnd (deref h0 (faddr f)) (\<lambda>p.
             if 0 \<le> sint (key p - k) then spli_insert_left_subtree (faddr f) a h0
             else spli_insert_right_subtree (faddr f) a h0) = Inr h2"
    and H2: "htree h2 0 (plug ?N ctx)"
    and f2: "\<forall>x. x \<noteq> a \<and> x \<noteq> faddr f \<longrightarrow> h2 x = h0 x"
    using attach_heap[OF HC Dc a0 ac ha side] ctx by blast
  have D2: "distinct (addrs (plug ?N ctx))"
    using D at pl[symmetric] by (auto simp add: addrs_plug)
  have len: "length ctx < fuel"
    using length_ins_ctx[of k t "[]"] ht unfolding ctx_def by simp
  have top: "rp (plug ?N ctx) = rp t"
    using pl[symmetric] ctx by (simp add: rp_plug)
  obtain h' where loop: "splay_loop fuel (rp t) a h2 = Inr (rp t, h')"
    and H': "htree h' 0 (splay_up ?N ctx)"
    and f': "\<forall>x. x \<notin> set (addrs (plug ?N ctx)) \<longrightarrow> h' x = h2 x"
    using splay_loop_heap[OF H2 D2 _ len] top by auto
  have fin: "faddr f \<in> set (addrs t)"
    using faddr_in_caddrs[of f ctx] ca ctx by simp
  have sa: "set (addrs (plug ?N ctx)) = insert a (set (addrs t))"
    using ca by (simp add: set_addrs_plug)
  have fr: "\<forall>x. x \<noteq> a \<and> x \<notin> set (addrs t) \<longrightarrow> h' x = h x"
    using f' f2 fin sa unfolding h0 by auto
  obtain p where "deref h0 (faddr f) = Inr p"
    "(if 0 \<le> sint (key p - k) then spli_insert_left_subtree (faddr f) a h0
      else spli_insert_right_subtree (faddr f) a h0) = Inr h2"
    using att unfolding bnd_eq_Inr by blast
  then show ?thesis
    using desc loop H' fr unfolding tree_insert_def ctx_def by blast
qed

lemma tree_insert_Leaf [simp]: "tree_insert a k d Leaf = Node Leaf (a, k, d) Leaf"
  by (simp add: tree_insert_def)

lemma tree_insert_root_form:
  "root_form (tree_insert a k d t) (if t = Leaf then a else rp t) k d
     (map snd (before (ins_ctx k t []))) (map snd (after (ins_ctx k t [])))"
proof -
  have "rp (plug (Node Leaf (a, k, d) Leaf) (ins_ctx k t [])) = (if t = Leaf then a else rp t)"
    using ins_ctx_plug[of k t "[]"] rp_plug[of Leaf "ins_ctx k t []"]
    by (cases "ins_ctx k t [] = []") (auto simp add: rp_plug)
  then show ?thesis
    using splay_up_root_form[of "Node Leaf (a, k, d) Leaf" a k d "[]" "[]" "ins_ctx k t []"]
    unfolding tree_insert_def by simp
qed

lemma tree_insert_addrs: "mset (addrs (tree_insert a k d t)) = add_mset a (mset (addrs t))"
proof -
  have "mset (addrs (plug (Node Leaf (a, k, d) Leaf) (ins_ctx k t [])))
      = add_mset a (mset (addrs (plug Leaf (ins_ctx k t []))))"
    by (simp add: addrs_plug)
  then show ?thesis
    unfolding tree_insert_def by (simp add: splay_up_addrs ins_ctx_plug)
qed

lemma mset_addrs_size: "mset (addrs t') = mset (addrs t) \<Longrightarrow> size t' = size t"
  by (metis length_addrs size_mset)

lemma tree_insert_size [simp]: "size (tree_insert a k d t) = Suc (size t)"
  by (metis length_addrs size_mset size_add_mset tree_insert_addrs)

text \<open>
  A successful insertion: the tree is not full, and \<open>malloc\<close> returns the
  address of a block that holds no node.
\<close>

lemma insert_holds:
  assumes I: "holds tr h t" and a0: "a \<noteq> 0" and ad: "a \<notin> dom h"
    and nf: "nodes_count tr \<noteq> max_nodes tr" and nm: "nodes_count tr \<noteq> - 1"
    and fuel: "size t < fuel"
  shows "\<exists>tr' h'. splay_int_insert fuel a (Some tr) k d h = Inr (nodes_count tr + 1, Some tr', h')
    \<and> holds tr' h' (tree_insert a k d t) \<and> max_nodes tr' = max_nodes tr"
proof -
  have H: "htree h 0 t" and rt: "root tr = rp t" and D: "distinct (addrs t)"
    and dm: "dom h = set (addrs t)" and cnt: "unat (nodes_count tr) = size t"
    using I by (auto simp add: holds_def)
  have at: "a \<notin> set (addrs t)" using ad dm by simp
  have "1 + nodes_count tr \<noteq> 0" using nm by (simp add: add_eq_0_iff)
  then have cnt': "unat (nodes_count tr + 1) = size (tree_insert a k d t)"
    using cnt unatSuc[of "nodes_count tr"] by (simp add: add.commute)
  have ms: "mset (addrs (tree_insert a k d t)) = mset (a # addrs t)"
    by (simp add: tree_insert_addrs)
  have D': "distinct (addrs (tree_insert a k d t))"
    using mset_eq_distinct[OF ms] D at by simp
  have S': "set (addrs (tree_insert a k d t)) = insert a (set (addrs t))"
    using mset_eq_setD[OF ms] by simp
  let ?h0 = "h(a \<mapsto> \<lparr>father = 0, left_son = 0, right_son = 0, key = k, data = d\<rparr>)"
  show ?thesis
  proof (cases "t = Leaf")
    case True
    let ?tr' = "tr\<lparr>root := a, nodes_count := nodes_count tr + 1\<rparr>"
    have run: "splay_int_insert fuel a (Some tr) k d h = Inr (nodes_count tr + 1, Some ?tr', ?h0)"
      using True rt nf a0 by (simp add: splay_int_insert_def spli_create_node_def)
    have "holds ?tr' ?h0 (tree_insert a k d t)"
      using True a0 dm cnt' by (auto simp add: holds_def)
    then show ?thesis using run by auto
  next
    case False
    then have r0: "root tr \<noteq> 0" using rt htree_rp_nz[OF H] by simp
    let ?tr' = "tr\<lparr>nodes_count := nodes_count tr + 1\<rparr>"
    obtain pred p h2 h' where desc: "insert_descend fuel (rp t) 0 k ?h0 = Inr pred"
      and dp: "deref ?h0 pred = Inr p"
      and att: "(if 0 \<le> sint (key p - k) then spli_insert_left_subtree pred a ?h0
        else spli_insert_right_subtree pred a ?h0) = Inr h2"
      and loop: "splay_loop fuel (rp t) a h2 = Inr (rp t, h')"
      and H': "htree h' 0 (tree_insert a k d t)"
      and fr: "\<forall>x. x \<noteq> a \<and> x \<notin> set (addrs t) \<longrightarrow> h' x = h x"
      using insert_nonempty_heap[OF H D False a0 at fuel refl, of k d] by blast
    have run: "splay_int_insert fuel a (Some tr) k d h = Inr (nodes_count tr + 1, Some ?tr', h')"
      using r0 rt nf a0 desc dp att loop
      by (simp add: splay_int_insert_def spli_create_node_def Let_def)
    have rp': "rp (tree_insert a k d t) = rp t"
      using root_form_rp[OF tree_insert_root_form, of a k d t] False by simp
    have dm': "dom h' = set (addrs (tree_insert a k d t))"
    proof (rule set_eqI)
      fix x
      show "(x \<in> dom h') = (x \<in> set (addrs (tree_insert a k d t)))"
      proof (cases "x \<in> set (addrs (tree_insert a k d t))")
        case True
        then show ?thesis using htree_alloc[OF H' True] by auto
      next
        case F: False
        then have "h' x = h x" "x \<notin> dom h" using fr S' dm by auto
        then show ?thesis using F by auto
      qed
    qed
    have "holds ?tr' h' (tree_insert a k d t)"
      using H' rp' rt D' dm' cnt' by (simp add: holds_def)
    then show ?thesis using run by auto
  qed
qed

section \<open>Search with splaying\<close>

lemma length_le_height_plug: "length c + height s \<le> height (plug s c)"
proof (induction s c rule: plug.induct)
  case (1 t)
  then show ?case by simp
next
  case (2 t x r c)
  have "length c + (height t + 1) \<le> length c + height (Node t x r)" by simp
  then show ?case using 2 by simp
next
  case (3 t l x c)
  have "length c + (height t + 1) \<le> length c + height (Node l x t)" by simp
  then show ?case using 3 by simp
qed

text \<open>
  The search and the splay of what it found, on a tree the store holds:
  the loop of \<open>splay_int_search\<close> and of \<open>splay_int_delete\<close>.
\<close>

lemma tree_splay_root_form:
  assumes "find_ctx k t [] = Some (s, c)"
  shows "\<exists>d. root_form (tree_splay k t) (rp t) k d
            (map snd (before c) @ items (left s)) (items (right s) @ map snd (after c))"
proof -
  obtain l a d r where s: "s = Node l (a, k, d) r" and pl: "plug s c = t"
    using find_ctx_plug[OF assms] by auto
  have "root_form s a k d (items l) (items r)" using s by simp
  from splay_up_root_form[OF this, of c] show ?thesis
    using assms s pl by (auto simp add: tree_splay_def)
qed

lemma tree_splay_addrs: "mset (addrs (tree_splay k t)) = mset (addrs t)"
proof (cases "find_ctx k t []")
  case None
  then show ?thesis by (simp add: tree_splay_def)
next
  case (Some p)
  obtain s c where p: "p = (s, c)" by (cases p)
  have "plug s c = t" "s \<noteq> Leaf" using find_ctx_plug[of k t "[]" s c] Some p by auto
  then show ?thesis using Some p splay_up_addrs[of s c] by (simp add: tree_splay_def)
qed

lemma splay_up_items: "t \<noteq> Leaf \<Longrightarrow> items (splay_up t c) = items (plug t c)"
proof -
  assume "t \<noteq> Leaf"
  then obtain a k d where rf: "root_form t a k d (items (left t)) (items (right t))"
    using root_form_ex by blast
  have it: "items t = items (left t) @ (k, d) # items (right t)"
    using rf by (cases t) auto
  obtain L R where "splay_up t c = Node L (rp (plug t c), k, d) R"
    "items L = map snd (before c) @ items (left t)"
    "items R = items (right t) @ map snd (after c)"
    using splay_up_root_form[OF rf, of c] by (rule root_formE)
  then show ?thesis using it by (simp add: items_def inorder_plug)
qed

lemma tree_splay_items: "items (tree_splay k t) = items t"
proof (cases "find_ctx k t []")
  case None
  then show ?thesis by (simp add: tree_splay_def)
next
  case (Some p)
  obtain s c where p: "p = (s, c)" by (cases p)
  have "plug s c = t" "s \<noteq> Leaf" using find_ctx_plug[of k t "[]" s c] Some p by auto
  then show ?thesis using Some p splay_up_items[of s c] by (simp add: tree_splay_def)
qed

lemma search_splay_heap:
  assumes H: "htree h 0 t" and D: "distinct (addrs t)" and fuel: "size t < fuel"
    and f: "find_ctx k t [] = Some (s, c)"
  shows "\<exists>h'. search_loop fuel (rp t) k h = Inr (rp s) \<and> rp s \<noteq> 0
    \<and> splay_loop fuel (rp t) (rp s) h = Inr (rp t, h')
    \<and> htree h' 0 (tree_splay k t)
    \<and> (\<forall>x. x \<notin> set (addrs t) \<longrightarrow> h' x = h x)"
proof -
  have pl: "plug s c = t" and sn: "s \<noteq> Leaf" using find_ctx_plug[OF f] by auto
  have ht: "height t < fuel" using fuel height_le_size_tree[of t] by simp
  have se: "search_loop fuel (rp t) k h = Inr (rp s)"
    using search_loop_heap[OF H ht, of k "[]"] f by simp
  have "htree h (ctx_par 0 c) s" using H unfolding pl[symmetric] by (simp add: htree_plug)
  then have r0: "rp s \<noteq> 0" using sn htree_rp_nz by blast
  have len: "length c < fuel" using length_le_height_plug[of c s] ht pl by simp
  obtain h' where "splay_loop fuel (rp (plug s c)) (rp s) h = Inr (rp (plug s c), h')"
    "htree h' 0 (splay_up s c)" "\<forall>x. x \<notin> set (addrs (plug s c)) \<longrightarrow> h' x = h x"
    using splay_loop_heap[OF H[folded pl] D[folded pl] sn len] by blast
  then show ?thesis using se r0 f unfolding pl by (auto simp add: tree_splay_def)
qed

lemma search_none_heap:
  assumes H: "htree h 0 t" and fuel: "size t < fuel" and f: "find_ctx k t [] = None"
  shows "search_loop fuel (rp t) k h = Inr 0"
proof -
  have ht: "height t < fuel" using fuel height_le_size_tree[of t] by simp
  show ?thesis using search_loop_heap[OF H ht, of k "[]"] f by simp
qed

section \<open>Join and deletion\<close>

lemma items_Nil: "items t = [] \<Longrightarrow> t = Leaf"
  by (cases t) (auto simp add: items_def)

lemma max_splay_form:
  assumes L: "L \<noteq> Leaf" and m: "max_ctx L [] = (m, cm)"
  shows "\<exists>L' k d. splay_up m cm = Node L' (rp L, k, d) Leaf
     \<and> items L = items L' @ [(k, d)]
     \<and> mset (addrs (splay_up m cm)) = mset (addrs L)"
proof -
  have pl: "plug m cm = L" and mn: "m \<noteq> Leaf" and rm: "right m = Leaf" and af: "after cm = []"
    using max_ctx_facts[OF L m] by auto
  obtain a k d where rf: "root_form m a k d (items (left m)) (items (right m))"
    using root_form_ex[OF mn] by blast
  obtain L' R' where su: "splay_up m cm = Node L' (rp (plug m cm), k, d) R'"
    and iL: "items L' = map snd (before cm) @ items (left m)"
    and iR: "items R' = items (right m) @ map snd (after cm)"
    using splay_up_root_form[OF rf, of cm] by (rule root_formE)
  have "R' = Leaf" using iR rm af by (simp add: items_Nil)
  moreover have "items L = items L' @ [(k, d)]"
    using splay_up_items[OF mn, of cm] su pl \<open>R' = Leaf\<close> by simp
  ultimately show ?thesis using su pl splay_up_addrs[OF mn, of cm] by auto
qed

lemma tree_join_facts:
  "mset (addrs (tree_join L R)) = mset (addrs L) + mset (addrs R)"
  "items (tree_join L R) = items L @ items R"
  "rp (tree_join L R) = (if L = Leaf then rp R else rp L)"
proof -
  have "mset (addrs (tree_join L R)) = mset (addrs L) + mset (addrs R)
    \<and> items (tree_join L R) = items L @ items R
    \<and> rp (tree_join L R) = (if L = Leaf then rp R else rp L)"
  proof (cases "L = Leaf \<or> R = Leaf")
    case True
    then show ?thesis by (auto simp add: tree_join_def)
  next
    case False
    obtain m cm where m: "max_ctx L [] = (m, cm)" by (cases "max_ctx L []")
    obtain L' k d where "splay_up m cm = Node L' (rp L, k, d) Leaf"
      "items L = items L' @ [(k, d)]" "mset (addrs (splay_up m cm)) = mset (addrs L)"
      using max_splay_form[OF _ m] False by blast
    then show ?thesis using False m by (auto simp add: tree_join_def)
  qed
  then show "mset (addrs (tree_join L R)) = mset (addrs L) + mset (addrs R)"
    "items (tree_join L R) = items L @ items R"
    "rp (tree_join L R) = (if L = Leaf then rp R else rp L)"
    by auto
qed

lemma join_heap:
  assumes HL: "htree h 0 L" and HR: "htree h 0 R"
    and D: "distinct (addrs L @ addrs R)" and fuel: "size L < fuel"
  shows "\<exists>h'. spli_join fuel (rp L) (rp R) h = Inr (rp (tree_join L R), h')
    \<and> htree h' 0 (tree_join L R)
    \<and> (\<forall>x. x \<notin> set (addrs L) \<union> set (addrs R) \<longrightarrow> h' x = h x)"
proof (cases "L = Leaf \<or> R = Leaf")
  case True
  then show ?thesis
    using HL HR htree_rp_nz[OF HL] htree_rp_nz[OF HR]
    by (auto simp add: spli_join_def tree_join_def)
next
  case False
  then have Ln: "L \<noteq> Leaf" and Rn: "R \<noteq> Leaf" by auto
  have r0: "rp L \<noteq> 0" "rp R \<noteq> 0" using Ln Rn htree_rp_nz[OF HL] htree_rp_nz[OF HR] by auto
  obtain m cm where m: "max_ctx L [] = (m, cm)" by (cases "max_ctx L []")
  have pl: "plug m cm = L" and mn: "m \<noteq> Leaf"
    using max_ctx_facts[OF Ln m] by auto
  have dL: "distinct (addrs L)" and dR: "distinct (addrs R)"
    and LR: "set (addrs L) \<inter> set (addrs R) = {}"
    using D by auto
  have hl: "height L \<le> fuel" using fuel height_le_size_tree[of L] by simp
  have mk: "spli_max_key_son fuel (rp L) h = Inr (rp m)"
    using max_key_son_heap[OF HL Ln hl, of "[]"] m by simp
  have len: "length cm < fuel"
    using length_le_height_plug[of cm m] pl fuel height_le_size_tree[of L] by simp
  obtain h1 where sl: "splay_loop fuel (rp L) (rp m) h = Inr (rp L, h1)"
    and H1: "htree h1 0 (splay_up m cm)"
    and f1: "\<forall>x. x \<notin> set (addrs L) \<longrightarrow> h1 x = h x"
    using splay_loop_heap[OF HL[folded pl] dL[folded pl] mn len] unfolding pl by blast
  obtain L' k d where su: "splay_up m cm = Node L' (rp L, k, d) Leaf"
    and ms: "mset (addrs (splay_up m cm)) = mset (addrs L)"
    using max_splay_form[OF Ln m] by blast
  have h1r: "h1 (rp L) = Some \<lparr>father = 0, left_son = rp L', right_son = 0, key = k, data = d\<rparr>"
    and HL': "htree h1 (rp L) L'"
    using H1 unfolding su by auto
  have sL: "set (addrs L) = insert (rp L) (set (addrs L'))"
    using mset_eq_setD[OF ms] unfolding su by simp
  have dL': "rp L \<notin> set (addrs L')"
    using mset_eq_distinct[OF ms] dL unfolding su by simp
  have HR1: "htree h1 0 R" using HR f1 LR by (subst htree_frame[where h = h]) auto
  have rR: "rp L \<notin> set (addrs R)" using sL LR by auto
  obtain h' where ir: "spli_insert_right_subtree (rp L) (rp R) h1 = Inr h'"
    and h'r: "h' (rp L) = Some \<lparr>father = 0, left_son = rp L', right_son = rp R, key = k, data = d\<rparr>"
    and HR': "htree h' (rp L) R"
    and f2: "\<forall>x. x \<noteq> rp L \<and> x \<notin> set (addrs R) \<longrightarrow> h' x = h1 x"
    using insert_right_heap[OF h1r HR1 dR rR] by blast
  have "h' x = h1 x" if "x \<in> set (addrs L')" for x
  proof -
    have "x \<noteq> rp L" "x \<notin> set (addrs R)" using that dL' sL LR by auto
    then show ?thesis using f2 by blast
  qed
  then have HL2: "htree h' (rp L) L'"
    using HL' by (subst htree_frame[where h = h1]) auto
  have tj: "tree_join L R = Node L' (rp L, k, d) R"
    using False m su by (simp add: tree_join_def)
  have run: "spli_join fuel (rp L) (rp R) h = Inr (rp L, h')"
    using r0 mk sl ir by (simp add: spli_join_def)
  have fr: "\<forall>x. x \<notin> set (addrs L) \<union> set (addrs R) \<longrightarrow> h' x = h x"
    using f1 f2 sL by auto
  show ?thesis using run h'r HR' HL2 r0 fr unfolding tj by auto
qed

lemma tree_delete_found:
  assumes f: "find_ctx k t [] = Some (s, c)"
  shows "\<exists>L d R. tree_splay k t = Node L (rp t, k, d) R \<and> tree_delete k t = tree_join L R
    \<and> items t = items L @ (k, d) # items R
    \<and> items (tree_delete k t) = items L @ items R
    \<and> mset (addrs t) = add_mset (rp t) (mset (addrs (tree_delete k t)))"
proof -
  obtain d where "root_form (tree_splay k t) (rp t) k d
            (map snd (before c) @ items (left s)) (items (right s) @ map snd (after c))"
    using tree_splay_root_form[OF f] by blast
  then obtain L R where ts: "tree_splay k t = Node L (rp t, k, d) R"
    by (rule root_formE)
  have td: "tree_delete k t = tree_join L R"
    using f ts by (simp add: tree_delete_def tree_splay_def)
  have "items t = items L @ (k, d) # items R"
    using tree_splay_items[of k t] ts by simp
  moreover have "mset (addrs t) = add_mset (rp t) (mset (addrs (tree_delete k t)))"
    using tree_splay_addrs[of k t] ts td by (simp add: tree_join_facts)
  ultimately show ?thesis using ts td by (auto simp add: tree_join_facts)
qed

lemma delete_absent_heap:
  assumes I: "holds tr h t" and fuel: "size t < fuel" and f: "find_ctx k t [] = None"
  shows "splay_int_delete fuel (Some tr) k opts h = Inr (0, Some tr, h)"
proof -
  have H: "htree h 0 t" and rt: "root tr = rp t" using I by (auto simp add: holds_def)
  have "spli_search_node fuel tr k h = Inr 0"
    using search_none_heap[OF H fuel f] rt by (simp add: spli_search_node_def)
  then show ?thesis by (simp add: splay_int_delete_def)
qed

lemma delete_found_heap:
  assumes I: "holds tr h t" and opts: "\<not> sint opts < 0" and fuel: "size t < fuel"
    and f: "find_ctx k t [] = Some (s, c)"
  shows "\<exists>tr' h'. splay_int_delete fuel (Some tr) k opts h = Inr (1, Some tr', h')
    \<and> holds tr' h' (tree_delete k t)
    \<and> max_nodes tr' = max_nodes tr \<and> nodes_count tr' = nodes_count tr - 1"
proof -
  have H: "htree h 0 t" and rt: "root tr = rp t" and D: "distinct (addrs t)"
    and dm: "dom h = set (addrs t)" and cnt: "unat (nodes_count tr) = size t"
    using I by (auto simp add: holds_def)
  obtain h1 where se: "search_loop fuel (rp t) k h = Inr (rp s)" and s0: "rp s \<noteq> 0"
    and sl: "splay_loop fuel (rp t) (rp s) h = Inr (rp t, h1)"
    and H1: "htree h1 0 (tree_splay k t)"
    and f1: "\<forall>x. x \<notin> set (addrs t) \<longrightarrow> h1 x = h x"
    using search_splay_heap[OF H D fuel f] by blast
  obtain L d R where ts: "tree_splay k t = Node L (rp t, k, d) R"
    and td: "tree_delete k t = tree_join L R"
    and ms: "mset (addrs t) = add_mset (rp t) (mset (addrs (tree_delete k t)))"
    using tree_delete_found[OF f] by blast
  let ?r = "rp t"
  have r0: "?r \<noteq> 0" using H1 unfolding ts by simp
  have D1: "distinct (addrs (Node L (?r, k, d) R))"
    using mset_eq_distinct[OF tree_splay_addrs, of k t] D unfolding ts by simp
  have S1: "set (addrs t) = insert ?r (set (addrs L) \<union> set (addrs R))"
    using mset_eq_setD[OF tree_splay_addrs, of k t] unfolding ts by auto
  have dis: "?r \<notin> set (addrs L)" "?r \<notin> set (addrs R)" "set (addrs L) \<inter> set (addrs R) = {}"
    "distinct (addrs L)" "distinct (addrs R)"
    using D1 by auto
  obtain h2 where c1: "spli_cut_left_subtree ?r h1 = Inr (rp L, h2)"
    and h2r: "h2 ?r = Some \<lparr>father = 0, left_son = 0, right_son = rp R, key = k, data = d\<rparr>"
    and HL2: "htree h2 0 L"
    and f2: "\<forall>x. x \<noteq> ?r \<and> x \<notin> set (addrs L) \<longrightarrow> h2 x = h1 x"
    using cut_left_heap[OF H1[unfolded ts] D1] by blast
  have "h2 x = h1 x" if "x \<in> set (addrs R)" for x
  proof -
    have "x \<noteq> ?r" "x \<notin> set (addrs L)" using that dis by auto
    then show ?thesis using f2 by simp
  qed
  then have "htree h2 ?r R = htree h1 ?r R" by (rule htree_frame)
  then have H2: "htree h2 0 (Node Leaf (?r, k, d) R)"
    using H1 h2r r0 unfolding ts by simp
  have D2: "distinct (addrs (Node Leaf (?r, k, d) R))" using dis by simp
  obtain h3 where c2: "spli_cut_right_subtree ?r h2 = Inr (rp R, h3)"
    and h3r: "h3 ?r = Some \<lparr>father = 0, left_son = rp Leaf, right_son = 0, key = k, data = d\<rparr>"
    and HR3: "htree h3 0 R"
    and f3: "\<forall>x. x \<noteq> ?r \<and> x \<notin> set (addrs R) \<longrightarrow> h3 x = h2 x"
    using cut_right_heap[OF H2 D2] by blast
  have "h3 x = h2 x" if "x \<in> set (addrs L)" for x
  proof -
    have "x \<noteq> ?r" "x \<notin> set (addrs R)" using that dis by auto
    then show ?thesis using f3 by simp
  qed
  then have "htree h3 0 L = htree h2 0 L" by (rule htree_frame)
  then have HL3: "htree h3 0 L" using HL2 by simp
  have DLR: "distinct (addrs L @ addrs R)" using dis by simp
  have sz: "size L < fuel" using fuel mset_addrs_size[OF tree_splay_addrs, of k t] unfolding ts by simp
  obtain h4 where jn: "spli_join fuel (rp L) (rp R) h3 = Inr (rp (tree_join L R), h4)"
    and H4: "htree h4 0 (tree_join L R)"
    and f4: "\<forall>x. x \<notin> set (addrs L) \<union> set (addrs R) \<longrightarrow> h4 x = h3 x"
    using join_heap[OF HL3 HR3 DLR sz] by blast
  have h4r: "h4 ?r = h3 ?r" using f4 dis by blast
  let ?h' = "h4(?r := None)"
  let ?tr' = "tr\<lparr>root := rp (tree_join L R), nodes_count := nodes_count tr - 1\<rparr>"
  have run: "splay_int_delete fuel (Some tr) k opts h = Inr (1, Some ?tr', ?h')"
    using opts rt se s0 sl c1 c2 jn h4r h3r r0
    by (simp add: splay_int_delete_def spli_search_node_def deref_def Let_def)
  have mj: "mset (addrs (tree_join L R)) = mset (addrs L @ addrs R)"
    by (simp add: tree_join_facts)
  have SJ: "set (addrs (tree_join L R)) = set (addrs L) \<union> set (addrs R)"
    using mset_eq_setD[OF mj] by simp
  have DJ: "distinct (addrs (tree_join L R))"
    using mset_eq_distinct[OF mj] DLR by simp
  have H': "htree ?h' 0 (tree_join L R)" using H4 SJ dis by simp
  have dm': "dom ?h' = set (addrs (tree_join L R))"
  proof (rule set_eqI)
    fix x
    show "(x \<in> dom ?h') = (x \<in> set (addrs (tree_join L R)))"
    proof (cases "x \<in> set (addrs (tree_join L R))")
      case True
      have "?h' x \<noteq> None" by (rule htree_alloc[OF H' True])
      then show ?thesis using True by (simp only: domIff simp_thms)
    next
      case F: False
      show ?thesis
      proof (cases "x = ?r")
        case True
        then show ?thesis using F by simp
      next
        case False
        then have "x \<notin> set (addrs t)" using F SJ S1 by auto
        then have "h x = None" "h1 x = h x" using dm f1 by auto
        moreover have "x \<notin> set (addrs L)" "x \<notin> set (addrs R)" using F SJ by auto
        then have "h4 x = h1 x" using f2 f3 f4 False by simp
        ultimately show ?thesis using F False \<open>h4 x = h1 x\<close> by auto
      qed
    qed
  qed
  have "size t = Suc (size (tree_join L R))"
    using ms td by (metis length_addrs size_mset size_add_mset)
  moreover have "nodes_count tr \<noteq> 0" using cnt calculation by auto
  ultimately have cnt': "unat (nodes_count tr - 1) = size (tree_join L R)"
    using cnt by (simp add: unat_minus_one)
  have "holds ?tr' ?h' (tree_delete k t)"
    using H' DJ dm' cnt' unfolding td by (simp add: holds_def)
  then show ?thesis using run by auto
qed

section \<open>The order of the keys\<close>

lemma diff_fits_sint: "diff_fits a b \<Longrightarrow> sint (a - b) = sint a - sint b"
  unfolding diff_fits_def sint_word_ariths
  by (simp add: signed_take_bit_int_eq_self)

lemma keys_fitD: "keys_fit ks \<Longrightarrow> a \<in> set ks \<Longrightarrow> b \<in> set ks \<Longrightarrow> diff_fits a b"
  by (auto simp add: keys_fit_def list_all_iff)

lemma keys_fit_subset: "keys_fit ks \<Longrightarrow> set ks' \<subseteq> set ks \<Longrightarrow> keys_fit ks'"
  by (auto simp add: keys_fit_def list_all_iff)

lemma keys_eq: "keys t = map fst (items t)"
  by (simp add: keys_def items_def)

lemma keys_simps [simp]:
  "keys Leaf = []" "keys (Node l (a, k, d) r) = keys l @ k # keys r"
  by (simp_all add: keys_def)


lemma keys_plug: "map sint (keys (plug s c)) = map ekey (before c) @ map sint (keys s) @ map ekey (after c)"
  by (simp add: keys_def inorder_plug ekey_def)

lemma ins_ctx_bounds:
  assumes "sorted (map sint (keys (plug s c)))"
    and "\<forall>x \<in> set (keys s). diff_fits x k"
    and "\<forall>x \<in> set (before c). ekey x \<le> sint k"
    and "\<forall>x \<in> set (after c). sint k \<le> ekey x"
  shows "(\<forall>x \<in> set (before (ins_ctx k s c)). ekey x \<le> sint k)
       \<and> (\<forall>x \<in> set (after (ins_ctx k s c)). sint k \<le> ekey x)"
  using assms
proof (induction k s c rule: ins_ctx.induct)
  case (1 k c)
  then show ?case by simp
next
  case (2 k l a ka d r c)
  have df: "sint (ka - k) = sint ka - sint k" using 2(4) by (simp add: diff_fits_sint)
  have so: "sorted (map ekey (before c) @ map sint (keys l) @ sint ka # map sint (keys r) @ map ekey (after c))"
    using 2(3) by (simp add: keys_plug)
  show ?case
  proof (cases "0 \<le> sint (ka - k)")
    case True
    have "\<forall>x \<in> set (keys r). sint ka \<le> sint x"
      using so by (auto simp add: sorted_append)
    then have b: "\<forall>x \<in> set (after (LeftHole (a, ka, d) r # c)). sint k \<le> ekey x"
      using True df 2(6) by (auto simp add: ekey_def keys_def)
    have "sorted (map sint (keys (plug l (LeftHole (a, ka, d) r # c))))"
      using 2(3) by simp
    then show ?thesis using 2(1)[OF True] 2(4,5) b True by simp
  next
    case False
    have "\<forall>x \<in> set (keys l). sint x \<le> sint ka"
      using so by (auto simp add: sorted_append)
    then have b: "\<forall>x \<in> set (before (RightHole l (a, ka, d) # c)). ekey x \<le> sint k"
      using False df 2(5) by (auto simp add: ekey_def keys_def)
    have "sorted (map sint (keys (plug r (RightHole l (a, ka, d) # c))))"
      using 2(3) by simp
    then show ?thesis using 2(2)[OF False] 2(4,6) b False by simp
  qed
qed

lemma tree_insert_items:
  "items (tree_insert a k d t) = map snd (before (ins_ctx k t [])) @ (k, d) # map snd (after (ins_ctx k t []))"
  "items t = map snd (before (ins_ctx k t [])) @ map snd (after (ins_ctx k t []))"
proof -
  obtain L R where "tree_insert a k d t = Node L (if t = Leaf then a else rp t, k, d) R"
    "items L = map snd (before (ins_ctx k t []))" "items R = map snd (after (ins_ctx k t []))"
    using tree_insert_root_form[of a k d t] by (rule root_formE)
  then show "items (tree_insert a k d t)
     = map snd (before (ins_ctx k t [])) @ (k, d) # map snd (after (ins_ctx k t []))"
    by simp
  show "items t = map snd (before (ins_ctx k t [])) @ map snd (after (ins_ctx k t []))"
    using ins_ctx_plug[of k t "[]"] inorder_plug[of Leaf "ins_ctx k t []"]
    by (simp add: items_def)
qed

lemma tree_insert_keys: "mset (keys (tree_insert a k d t)) = add_mset k (mset (keys t))"
  unfolding keys_eq by (subst tree_insert_items(2)[of t k], subst tree_insert_items(1)) simp

lemma tree_insert_sorted:
  assumes "sorted_keys t" and "\<forall>x \<in> set (keys t). diff_fits x k"
  shows "sorted_keys (tree_insert a k d t)"
proof -
  let ?c = "ins_ctx k t []"
  have "sorted (map sint (keys (plug t [])))" using assms(1) by (simp add: sorted_keys_def)
  then have b: "\<forall>x \<in> set (before ?c). ekey x \<le> sint k" "\<forall>x \<in> set (after ?c). sint k \<le> ekey x"
    using ins_ctx_bounds[of t "[]" k] assms(2) by auto
  have e: "map sint (keys (tree_insert a k d t)) = map ekey (before ?c) @ sint k # map ekey (after ?c)"
    unfolding keys_eq tree_insert_items(1) by (simp add: ekey_def comp_def)
  have o: "map sint (keys t) = map ekey (before ?c) @ map ekey (after ?c)"
    unfolding keys_eq by (subst tree_insert_items(2)[of t k]) (simp add: ekey_def comp_def)
  have "sorted (map ekey (before ?c) @ map ekey (after ?c))"
    using assms(1) o by (simp add: sorted_keys_def)
  then have "sorted (map ekey (before ?c) @ sint k # map ekey (after ?c))"
    using b by (auto simp add: sorted_append)
  then show ?thesis unfolding sorted_keys_def e .
qed

lemma tree_delete_keys:
  "find_ctx k t [] = Some (s, c) \<Longrightarrow> mset (keys t) = add_mset k (mset (keys (tree_delete k t)))"
  using tree_delete_found[of k t s c] by (auto simp add: keys_eq)

lemma tree_delete_sorted:
  assumes "sorted_keys t"
  shows "sorted_keys (tree_delete k t)"
proof (cases "find_ctx k t []")
  case None
  then show ?thesis using assms by (simp add: tree_delete_def)
next
  case (Some p)
  obtain s c where "p = (s, c)" by (cases p)
  then obtain L d R where "items t = items L @ (k, d) # items R"
    "items (tree_delete k t) = items L @ items R"
    using tree_delete_found[of k t s c] Some by blast
  then show ?thesis using assms by (auto simp add: sorted_keys_def keys_eq sorted_append)
qed

lemma find_ctx_key_in: "find_ctx k t c = Some (s, c') \<Longrightarrow> k \<in> set (keys t)"
  by (induction k t c rule: find_ctx.induct) (auto split: if_splits simp add: signed_eq_0_iff)

text \<open>In a tree in order whose key differences fit, the search finds every key of the tree.\<close>

lemma find_ctx_present:
  assumes "sorted (map sint (keys t))" and "\<forall>x \<in> set (keys t). diff_fits x k"
    and "k \<in> set (keys t)"
  shows "find_ctx k t c \<noteq> None"
  using assms
proof (induction k t c rule: find_ctx.induct)
  case (1 k c)
  then show ?case by simp
next
  case (2 k l a ka d r c)
  have df: "sint (ka - k) = sint ka - sint k" using 2(4) by (simp add: diff_fits_sint)
  have so: "sorted (map sint (keys l))" "sorted (map sint (keys r))"
    "\<forall>x \<in> set (keys l). sint x \<le> sint ka" "\<forall>x \<in> set (keys r). sint ka \<le> sint x"
    using 2(3) by (auto simp add: sorted_append)
  show ?case
  proof (cases "0 < sint (ka - k)")
    case True
    then have "k \<in> set (keys l)" using 2(5) so df by auto
    then show ?thesis using 2(1)[OF True so(1)] 2(4) True by simp
  next
    case False
    show ?thesis
    proof (cases "sint (ka - k) < 0")
      case T: True
      then have "k \<in> set (keys r)" using 2(5) so df by auto
      then show ?thesis using 2(2)[OF False T so(2)] 2(4) False T by simp
    next
      case False2: False
      then show ?thesis using False by simp
    qed
  qed
qed

section \<open>Sequences of calls\<close>

lemma insert_full:
  "nodes_count tr = max_nodes tr \<Longrightarrow> splay_int_insert fuel a (Some tr) k d h = Inr (0, Some tr, h)"
  by (simp add: splay_int_insert_def)

lemma delete_bad_opts:
  "sint opts < 0 \<Longrightarrow> splay_int_delete fuel tr k opts h = Inr (0, tr, h)"
  by (simp add: splay_int_delete_def)

lemma run_ops_inv:
  assumes "holds tr h t" "max_nodes tr = - 1" "allocs_ok fuel ops (Some tr, h)"
    "size t + length ops < fuel"
  shows "\<exists>tr' h' t' n m. run_ops fuel ops (Some tr, h) = Inr ((Some tr', h'), n, m)
    \<and> holds tr' h' t' \<and> max_nodes tr' = - 1 \<and> size t' + m = size t + n
    \<and> set (keys t') \<subseteq> set (keys t) \<union> op_key ` set ops
    \<and> (sorted_keys t \<and> keys_fit (keys t @ map op_key ops) \<longrightarrow> sorted_keys t')"
  using assms
proof (induction ops arbitrary: tr h t)
  case Nil
  then show ?case by auto
next
  case (Cons o1 ops)
  show ?case
  proof (cases o1)
    case (Insert k d a)
    show ?thesis
    proof (cases "nodes_count tr = max_nodes tr")
      case True
      have run: "splay_int_insert fuel a (Some tr) k d h = Inr (0, Some tr, h)"
        using True by (rule insert_full)
      have al: "allocs_ok fuel ops (Some tr, h)" using Cons(4) Insert run by simp
      have fu: "size t + length ops < fuel" using Cons(5) by simp
      obtain tr' h' t' n m where r: "run_ops fuel ops (Some tr, h) = Inr ((Some tr', h'), n, m)"
        and i: "holds tr' h' t'" "max_nodes tr' = - 1" "size t' + m = size t + n"
        "set (keys t') \<subseteq> set (keys t) \<union> op_key ` set ops"
        "sorted_keys t \<and> keys_fit (keys t @ map op_key ops) \<longrightarrow> sorted_keys t'"
        using Cons(1)[OF Cons(2,3) al fu] by blast
      have kf: "keys_fit (keys t @ map op_key (o1 # ops)) \<Longrightarrow> keys_fit (keys t @ map op_key ops)"
        by (rule keys_fit_subset) auto
      have "run_ops fuel (o1 # ops) (Some tr, h) = Inr ((Some tr', h'), n, m)"
        using run r Insert by simp
      then show ?thesis using i kf by auto
    next
      case False
      then have nm: "nodes_count tr \<noteq> - 1" using Cons(3) by simp
      have a: "a \<noteq> 0" "a \<notin> dom h" using Cons(4) Insert by auto
      have fu0: "size t < fuel" using Cons(5) by simp
      obtain tr1 h1 where run: "splay_int_insert fuel a (Some tr) k d h
            = Inr (nodes_count tr + 1, Some tr1, h1)"
        and i1: "holds tr1 h1 (tree_insert a k d t)" "max_nodes tr1 = max_nodes tr"
        using insert_holds[OF Cons(2) a False nm fu0, of k d] by blast
      have r0: "nodes_count tr + 1 \<noteq> 0" using nm by (metis add_eq_0_iff2 minus_equation_iff)
      have al: "allocs_ok fuel ops (Some tr1, h1)" using Cons(4) Insert run by simp
      have fu: "size (tree_insert a k d t) + length ops < fuel" using Cons(5) by simp
      have m1: "max_nodes tr1 = - 1" using i1 Cons(3) by simp
      obtain tr' h' t' n m where r: "run_ops fuel ops (Some tr1, h1) = Inr ((Some tr', h'), n, m)"
        and i: "holds tr' h' t'" "max_nodes tr' = - 1"
        "size t' + m = size (tree_insert a k d t) + n"
        "set (keys t') \<subseteq> set (keys (tree_insert a k d t)) \<union> op_key ` set ops"
        "sorted_keys (tree_insert a k d t) \<and> keys_fit (keys (tree_insert a k d t) @ map op_key ops)
           \<longrightarrow> sorted_keys t'"
        using Cons(1)[OF i1(1) m1 al fu] by blast
      have ks: "set (keys (tree_insert a k d t)) = insert k (set (keys t))"
        using mset_eq_setD[of "keys (tree_insert a k d t)" "k # keys t"]
        by (simp add: tree_insert_keys)
      have so: "sorted_keys t'" if s: "sorted_keys t" and kf: "keys_fit (keys t @ map op_key (o1 # ops))"
      proof -
        have "\<forall>x \<in> set (keys t). diff_fits x k"
          using keys_fitD[OF kf] Insert by simp
        then have "sorted_keys (tree_insert a k d t)" using s by (rule tree_insert_sorted[rotated])
        moreover have "keys_fit (keys (tree_insert a k d t) @ map op_key ops)"
          using kf ks Insert by (intro keys_fit_subset[OF kf]) auto
        ultimately show ?thesis using i(5) by simp
      qed
      have "run_ops fuel (o1 # ops) (Some tr, h) = Inr ((Some tr', h'), Suc n, m)"
        using run r r0 Insert by simp
      moreover have "set (keys t') \<subseteq> set (keys t) \<union> op_key ` set (o1 # ops)"
        using i(4) ks Insert by auto
      ultimately show ?thesis using i(1,2,3) so by auto
    qed
  next
    case (Delete k opts)
    have fu0: "size t < fuel" using Cons(5) by simp
    have kf: "keys_fit (keys t @ map op_key (o1 # ops)) \<Longrightarrow> keys_fit (keys t @ map op_key ops)"
      by (rule keys_fit_subset) auto
    show ?thesis
    proof (cases "sint opts < 0 \<or> find_ctx k t [] = None")
      case True
      have run: "splay_int_delete fuel (Some tr) k opts h = Inr (0, Some tr, h)"
        using True delete_bad_opts delete_absent_heap[OF Cons(2) fu0] by blast
      have al: "allocs_ok fuel ops (Some tr, h)" using Cons(4) Delete run by simp
      have fu: "size t + length ops < fuel" using Cons(5) by simp
      obtain tr' h' t' n m where r: "run_ops fuel ops (Some tr, h) = Inr ((Some tr', h'), n, m)"
        and i: "holds tr' h' t'" "max_nodes tr' = - 1" "size t' + m = size t + n"
        "set (keys t') \<subseteq> set (keys t) \<union> op_key ` set ops"
        "sorted_keys t \<and> keys_fit (keys t @ map op_key ops) \<longrightarrow> sorted_keys t'"
        using Cons(1)[OF Cons(2,3) al fu] by blast
      have "run_ops fuel (o1 # ops) (Some tr, h) = Inr ((Some tr', h'), n, m)"
        using run r Delete by simp
      then show ?thesis using i kf by auto
    next
      case False
      then obtain s c where f: "find_ctx k t [] = Some (s, c)" and op: "\<not> sint opts < 0"
        by auto
      obtain tr1 h1 where run: "splay_int_delete fuel (Some tr) k opts h = Inr (1, Some tr1, h1)"
        and i1: "holds tr1 h1 (tree_delete k t)" "max_nodes tr1 = max_nodes tr"
        using delete_found_heap[OF Cons(2) op fu0 f] by blast
      have sz: "size t = Suc (size (tree_delete k t))"
        using tree_delete_found[OF f] by (metis length_addrs size_mset size_add_mset)
      have al: "allocs_ok fuel ops (Some tr1, h1)" using Cons(4) Delete run by simp
      have fu: "size (tree_delete k t) + length ops < fuel" using Cons(5) sz by simp
      have m1: "max_nodes tr1 = - 1" using i1 Cons(3) by simp
      obtain tr' h' t' n m where r: "run_ops fuel ops (Some tr1, h1) = Inr ((Some tr', h'), n, m)"
        and i: "holds tr' h' t'" "max_nodes tr' = - 1"
        "size t' + m = size (tree_delete k t) + n"
        "set (keys t') \<subseteq> set (keys (tree_delete k t)) \<union> op_key ` set ops"
        "sorted_keys (tree_delete k t) \<and> keys_fit (keys (tree_delete k t) @ map op_key ops)
           \<longrightarrow> sorted_keys t'"
        using Cons(1)[OF i1(1) m1 al fu] by blast
      have "set_mset (mset (keys t)) = insert k (set_mset (mset (keys (tree_delete k t))))"
        using tree_delete_keys[OF f] by simp
      then have ks: "set (keys (tree_delete k t)) \<subseteq> set (keys t)" by auto
      have so: "sorted_keys t'" if s: "sorted_keys t" and kf': "keys_fit (keys t @ map op_key (o1 # ops))"
      proof -
        have "keys_fit (keys (tree_delete k t) @ map op_key ops)"
          using ks by (intro keys_fit_subset[OF kf']) auto
        then show ?thesis using i(5) tree_delete_sorted[OF s] by simp
      qed
      have "run_ops fuel (o1 # ops) (Some tr, h) = Inr ((Some tr', h'), n, Suc m)"
        using run r Delete by simp
      moreover have "set (keys t') \<subseteq> set (keys t) \<union> op_key ` set (o1 # ops)"
        using i(4) ks by auto
      ultimately show ?thesis using i(1,2,3) so sz by auto
    qed
  qed
qed

section \<open>Depth-first searches\<close>

lemma splice_Nil [simp]: "j \<le> length xs \<Longrightarrow> splice_at j [] xs = xs"
  by (simp add: splice_at_def)

lemma length_splice [simp]: "j + length ys \<le> length xs \<Longrightarrow> length (splice_at j ys xs) = length xs"
  by (simp add: splice_at_def)

lemma splice_append:
  "j + length ys + length zs \<le> length xs \<Longrightarrow>
   splice_at (j + length ys) zs (splice_at j ys xs) = splice_at j (ys @ zs) xs"
  by (simp add: splice_at_def add.assoc add.commute add.left_commute)

lemma splice_single: "j < length xs \<Longrightarrow> xs[j := v] = splice_at j [v] xs"
  by (simp add: splice_at_def upd_conv_take_nth_drop)

lemma splice_all: "length ys = length xs \<Longrightarrow> splice_at 0 ys xs = ys"
  by (simp add: splice_at_def)

lemma size_preorder: "length (preorder t) = size t"
  by (induction t) auto

lemma size_postorder: "length (postorder t) = size t"
  by (induction t) auto

lemma inodfs_heap:
  assumes V: "\<And>a n i xs. i < length xs \<Longrightarrow>
      dfs_visit a n int_opt (int i) (mk xs) = Inr (mk (xs[i := sel (a, key n, data n)]))"
  shows "htree h par s \<Longrightarrow> height s < fuel \<Longrightarrow> j + size s \<le> length xs \<Longrightarrow>
    spli_inodfs fuel (rp s) (int j, mk xs) int_opt h
      = Inr (int j + int (size s) - 1, mk (splice_at j (map sel (inorder s)) xs))"
proof (induction s arbitrary: fuel par j xs)
  case Leaf
  then show ?case by (cases fuel) auto
next
  case (Node l e r)
  obtain a k d where e: "e = (a, k, d)" by (cases e)
  obtain n where fuel: "fuel = Suc n" "height l < n" "height r < n"
    using Node(4) by (cases fuel) auto
  have h: "h a = Some \<lparr>father = par, left_son = rp l, right_son = rp r, key = k, data = d\<rparr>"
    "a \<noteq> 0" "htree h a l" "htree h a r"
    using Node(3) e by auto
  let ?x1 = "splice_at j (map sel (inorder l)) xs"
  let ?j1 = "j + size l"
  let ?x2 = "?x1[?j1 := sel e]"
  have b: "j + size l \<le> length xs" "?j1 < length ?x1" "?j1 + 1 + size r \<le> length ?x2"
    using Node(5) by auto
  have l: "spli_inodfs n (rp l) (int j, mk xs) int_opt h = Inr (int j + int (size l) - 1, mk ?x1)"
    using Node(1)[OF h(3) fuel(2) b(1)] .
  have v: "dfs_visit a \<lparr>father = par, left_son = rp l, right_son = rp r, key = k, data = d\<rparr>
             int_opt (int ?j1) (mk ?x1) = Inr (mk ?x2)"
    using V[OF b(2)] e by simp
  have r: "spli_inodfs n (rp r) (int (?j1 + 1), mk ?x2) int_opt h
      = Inr (int (?j1 + 1) + int (size r) - 1, mk (splice_at (?j1 + 1) (map sel (inorder r)) ?x2))"
    using Node(2)[OF h(4) fuel(3) b(3)] .
  have "?x2 = splice_at j (map sel (inorder l) @ [sel e]) xs"
    using splice_append[of j "map sel (inorder l)" "[sel e]" xs] splice_single[OF b(2)] Node(5)
    by simp
  then have "splice_at (?j1 + 1) (map sel (inorder r)) ?x2
      = splice_at j ((map sel (inorder l) @ [sel e]) @ map sel (inorder r)) xs"
    using splice_append[of j "map sel (inorder l) @ [sel e]" "map sel (inorder r)" xs] Node(5)
    by simp
  then show ?case
    using l v r h(1,2) fuel(1) e
    by (simp add: deref_def Let_def add.commute add.left_commute)
qed


lemma preodfs_heap:
  assumes V: "\<And>a n i xs. i < length xs \<Longrightarrow>
      dfs_visit a n int_opt (int i) (mk xs) = Inr (mk (xs[i := sel (a, key n, data n)]))"
  shows "htree h par s \<Longrightarrow> height s < fuel \<Longrightarrow> j + size s \<le> length xs \<Longrightarrow>
    spli_preodfs fuel (rp s) (int j, mk xs) int_opt h
      = Inr (int j + int (size s) - 1, mk (splice_at j (map sel (preorder s)) xs))"
proof (induction s arbitrary: fuel par j xs)
  case Leaf
  then show ?case by (cases fuel) auto
next
  case (Node l e r)
  obtain a k d where e: "e = (a, k, d)" by (cases e)
  obtain n where fuel: "fuel = Suc n" "height l < n" "height r < n"
    using Node(4) by (cases fuel) auto
  have h: "h a = Some \<lparr>father = par, left_son = rp l, right_son = rp r, key = k, data = d\<rparr>"
    "a \<noteq> 0" "htree h a l" "htree h a r"
    using Node(3) e by auto
  let ?x1 = "xs[j := sel e]"
  let ?x2 = "splice_at (j + 1) (map sel (preorder l)) ?x1"
  let ?j2 = "j + 1 + size l"
  have b: "j < length xs" "j + 1 + size l \<le> length ?x1" "?j2 + size r \<le> length ?x2"
    using Node(5) by (auto simp add: size_preorder)
  have v: "dfs_visit a \<lparr>father = par, left_son = rp l, right_son = rp r, key = k, data = d\<rparr>
             int_opt (int j) (mk xs) = Inr (mk ?x1)"
    using V[OF b(1)] e by simp
  have l: "spli_preodfs n (rp l) (int (j + 1), mk ?x1) int_opt h
      = Inr (int (j + 1) + int (size l) - 1, mk ?x2)"
    using Node(1)[OF h(3) fuel(2) b(2)] .
  have r: "spli_preodfs n (rp r) (int ?j2, mk ?x2) int_opt h
      = Inr (int ?j2 + int (size r) - 1, mk (splice_at ?j2 (map sel (preorder r)) ?x2))"
    using Node(2)[OF h(4) fuel(3) b(3)] .
  have "?x2 = splice_at j ([sel e] @ map sel (preorder l)) xs"
    using splice_append[of j "[sel e]" "map sel (preorder l)" xs] splice_single[OF b(1)] Node(5)
    by (simp add: size_preorder)
  then have "splice_at ?j2 (map sel (preorder r)) ?x2
      = splice_at j (([sel e] @ map sel (preorder l)) @ map sel (preorder r)) xs"
    using splice_append[of j "[sel e] @ map sel (preorder l)" "map sel (preorder r)" xs] Node(5)
    by (simp add: size_preorder)
  then show ?case
    using l v r h(1,2) fuel(1) e
    by (simp add: deref_def Let_def add.commute add.left_commute)
qed

lemma postodfs_heap:
  assumes V: "\<And>a n i xs. i < length xs \<Longrightarrow>
      dfs_visit a n int_opt (int i) (mk xs) = Inr (mk (xs[i := sel (a, key n, data n)]))"
  shows "htree h par s \<Longrightarrow> height s < fuel \<Longrightarrow> j + size s \<le> length xs \<Longrightarrow>
    spli_postodfs fuel (rp s) (int j, mk xs) int_opt h
      = Inr (int j + int (size s) - 1, mk (splice_at j (map sel (postorder s)) xs))"
proof (induction s arbitrary: fuel par j xs)
  case Leaf
  then show ?case by (cases fuel) auto
next
  case (Node l e r)
  obtain a k d where e: "e = (a, k, d)" by (cases e)
  obtain n where fuel: "fuel = Suc n" "height l < n" "height r < n"
    using Node(4) by (cases fuel) auto
  have h: "h a = Some \<lparr>father = par, left_son = rp l, right_son = rp r, key = k, data = d\<rparr>"
    "a \<noteq> 0" "htree h a l" "htree h a r"
    using Node(3) e by auto
  let ?x1 = "splice_at j (map sel (postorder l)) xs"
  let ?j1 = "j + size l"
  let ?x2 = "splice_at ?j1 (map sel (postorder r)) ?x1"
  let ?j2 = "?j1 + size r"
  have b: "j + size l \<le> length xs" "?j1 + size r \<le> length ?x1" "?j2 < length ?x2"
    using Node(5) by (auto simp add: size_postorder)
  have l: "spli_postodfs n (rp l) (int j, mk xs) int_opt h = Inr (int j + int (size l) - 1, mk ?x1)"
    using Node(1)[OF h(3) fuel(2) b(1)] .
  have r: "spli_postodfs n (rp r) (int ?j1, mk ?x1) int_opt h
      = Inr (int ?j1 + int (size r) - 1, mk ?x2)"
    using Node(2)[OF h(4) fuel(3) b(2)] .
  have v: "dfs_visit a \<lparr>father = par, left_son = rp l, right_son = rp r, key = k, data = d\<rparr>
             int_opt (int ?j2) (mk ?x2) = Inr (mk (?x2[?j2 := sel e]))"
    using V[OF b(3)] e by simp
  have "?x2 = splice_at j (map sel (postorder l) @ map sel (postorder r)) xs"
    using splice_append[of j "map sel (postorder l)" "map sel (postorder r)" xs] Node(5)
    by (simp add: size_postorder)
  then have "?x2[?j2 := sel e]
      = splice_at j ((map sel (postorder l) @ map sel (postorder r)) @ [sel e]) xs"
    using splice_append[of j "map sel (postorder l) @ map sel (postorder r)" "[sel e]" xs]
      splice_single[OF b(3), of "sel e"] Node(5)
    by (simp add: size_postorder add.assoc)
  then show ?case
    using l v r h(1,2) fuel(1) e
    by (simp add: deref_def Let_def add.commute add.left_commute)
qed

lemma flag_simps [simp]:
  "SEARCH_DATA AND SEARCH_NODES = 0" "SEARCH_DATA AND SEARCH_KEYS = 0" "SEARCH_DATA \<noteq> 0"
  "SEARCH_KEYS AND SEARCH_NODES = 0" "SEARCH_KEYS \<noteq> 0" "SEARCH_KEYS AND SEARCH_DATA = 0"
  "SEARCH_NODES \<noteq> 0" "SEARCH_NODES AND SEARCH_DATA = 0" "SEARCH_NODES AND SEARCH_KEYS = 0"
  by (simp_all add: SEARCH_DATA_def SEARCH_KEYS_def SEARCH_NODES_def)

lemma visit_data:
  "i < length xs \<Longrightarrow> dfs_visit a n SEARCH_DATA (int i) (PtrBuf xs)
     = Inr (PtrBuf (xs[i := snd (snd (a, key n, data n))]))"
  by (simp add: dfs_visit_def write_ptr_def)

lemma visit_keys:
  "i < length xs \<Longrightarrow> dfs_visit a n SEARCH_KEYS (int i) (IntBuf xs)
     = Inr (IntBuf (xs[i := fst (snd (a, key n, data n))]))"
  by (simp add: dfs_visit_def write_key_def)

lemma visit_nodes:
  "i < length xs \<Longrightarrow> dfs_visit a n SEARCH_NODES (int i) (PtrBuf xs)
     = Inr (PtrBuf (xs[i := fst (a, key n, data n)]))"
  by (simp add: dfs_visit_def write_ptr_def)

lemma dfs_run_heap:
  assumes V: "\<And>a n i xs. i < length xs \<Longrightarrow>
      dfs_visit a n int_opt (int i) (mk xs) = Inr (mk (xs[i := sel (a, key n, data n)]))"
    and H: "htree h 0 t" and rt: "root tr = rp t" and fuel: "size t < fuel"
    and len: "length xs = size t"
  shows "dfs_run fuel True tr type int_opt (mk xs) h
    = Inr (map_option (\<lambda>es. mk (map sel es)) (dfs_order type t))"
proof -
  have ht: "height t < fuel" using fuel height_le_size_tree[of t] by simp
  have b: "0 + size t \<le> length xs" using len by simp
  note a = preodfs_heap[where mk = mk and sel = sel, OF V H ht b, simplified]
    inodfs_heap[where mk = mk and sel = sel, OF V H ht b, simplified]
    postodfs_heap[where mk = mk and sel = sel, OF V H ht b, simplified]
  show ?thesis
    using a rt len
    by (simp add: dfs_run_def dfs_order_def splice_all size_preorder size_postorder length_inorder)
qed

text \<open>
  A depth-first search of the tree the store holds, when \<open>calloc\<close> gives the
  array: the visited entries in the order asked for, in the form asked for.
\<close>

lemma dfs_heap:
  assumes I: "holds tr h t" and fuel: "size t < fuel"
    and ty: "0 < sint type" and op: "0 < sint opts" and tn: "t \<noteq> Leaf"
  shows "splay_int_dfs fuel True (Some tr) type opts h
    = Inr (case dfs_order type t of None \<Rightarrow> None | Some es \<Rightarrow> out_buffer opts es)"
proof -
  have H: "htree h 0 t" and rt: "root tr = rp t" and cnt: "unat (nodes_count tr) = size t"
    using I by (auto simp add: holds_def)
  have r0: "root tr \<noteq> 0" using rt tn htree_rp_nz[OF H] by simp
  let ?n = "unat (nodes_count tr)"
  have d: "dfs_run fuel True tr type SEARCH_DATA (PtrBuf (replicate ?n 0)) h
      = Inr (map_option (\<lambda>es. PtrBuf (map (\<lambda>e. snd (snd e)) es)) (dfs_order type t))"
    using dfs_run_heap[where mk = PtrBuf and sel = "\<lambda>e. snd (snd e)" and xs = "replicate ?n 0",
        OF visit_data H rt fuel] cnt by simp
  have k: "dfs_run fuel True tr type SEARCH_KEYS (IntBuf (replicate ?n 0)) h
      = Inr (map_option (\<lambda>es. IntBuf (map (\<lambda>e. fst (snd e)) es)) (dfs_order type t))"
    using dfs_run_heap[where mk = IntBuf and sel = "\<lambda>e. fst (snd e)" and xs = "replicate ?n 0",
        OF visit_keys H rt fuel] cnt by simp
  have n: "dfs_run fuel True tr type SEARCH_NODES (PtrBuf (replicate ?n 0)) h
      = Inr (map_option (\<lambda>es. PtrBuf (map fst es)) (dfs_order type t))"
    using dfs_run_heap[where mk = PtrBuf and sel = fst and xs = "replicate ?n 0",
        OF visit_nodes H rt fuel] cnt by simp
  show ?thesis
    using ty op r0 d k n
    by (cases "dfs_order type t") (auto simp add: splay_int_dfs_def out_buffer_def)
qed

section \<open>Breadth-first search\<close>

lemma half_lo_lo: "lo_half (with_lo s v) = v"
  unfolding lo_half_def with_lo_def by (rule bit_word_eqI) (auto simp add: bit_simps)

lemma half_hi_hi: "hi_half (with_hi s v) = v"
  unfolding hi_half_def with_hi_def by (rule bit_word_eqI) (auto simp add: bit_simps)

lemma half_lo_hi: "lo_half (with_hi s v) = lo_half s"
  unfolding lo_half_def with_hi_def by (rule bit_word_eqI) (auto simp add: bit_simps)

lemma read_write_int_same:
  "j div 2 < length q \<Longrightarrow> write_int j v q = Inr q' \<Longrightarrow> read_int q' j = v"
  by (auto simp add: write_int_def read_int_def Let_def half_lo_lo half_hi_hi)

lemma read_write_int_below:
  "j div 2 < length q \<Longrightarrow> write_int j v q = Inr q' \<Longrightarrow> j' < j \<Longrightarrow> read_int q' j' = read_int q j'"
proof -
  assume a: "j div 2 < length q" "write_int j v q = Inr q'" "j' < j"
  show ?thesis
  proof (cases "j' div 2 = j div 2")
    case True
    then have "even j'" "odd j" using a(3) by presburger+
    then show ?thesis using a True
      by (auto simp add: write_int_def read_int_def Let_def half_lo_hi)
  next
    case False
    then show ?thesis using a by (auto simp add: write_int_def read_int_def Let_def)
  qed
qed


lemma enqueue_spec:
  "htree h p s \<Longrightarrow> (s \<noteq> Leaf \<Longrightarrow> ip < length q) \<Longrightarrow>
   enqueue (rp s) (q, ip) = Inr (if s = Leaf then (q, ip) else (q[ip := rp s], Suc ip))"
  by (cases s) (auto simp add: enqueue_def write_slot_def)

lemma pend_push:
  "pend q i ts \<Longrightarrow> i + length ts < length q \<Longrightarrow> pend (q[i + length ts := rp s]) i (ts @ [s])"
proof -
  assume a: "pend q i ts" "i + length ts < length q"
  have "(q[i + length ts := rp s]) ! (i + j) = rp ((ts @ [s]) ! j)" if "j < length (ts @ [s])" for j
  proof (cases "j < length ts")
    case True
    then show ?thesis using a by (simp add: pend_def nth_append)
  next
    case False
    then have "j = length ts" using that by simp
    then show ?thesis using a by (simp add: nth_append)
  qed
  then show ?thesis unfolding pend_def by blast
qed

lemma sons_spec:
  assumes c: "left_son c = rp l" "right_son c = rp r"
    and hl: "htree h a l" and hr: "htree h a r"
    and dir: "type AND BFS_LEFT_FIRST \<noteq> 0 \<or> type AND BFS_RIGHT_FIRST \<noteq> 0"
    and pe: "pend q i ts" and ip: "ip = i + length ts"
    and bd: "ip + length (bfs_kids type l r) \<le> length q"
  shows "\<exists>q2. bfs_sons type c (q, ip) = Inr (q2, ip + length (bfs_kids type l r))
    \<and> length q2 = length q \<and> (\<forall>j < ip. q2 ! j = q ! j)
    \<and> pend q2 i (ts @ bfs_kids type l r)"
proof (cases "type AND BFS_LEFT_FIRST \<noteq> 0")
  case True
  show ?thesis
  proof (cases "l = Leaf")
    case lL: True
    show ?thesis
    proof (cases "r = Leaf")
      case rL: True
      then show ?thesis
        using True lL c pe by (simp add: bfs_sons_def bfs_kids_def enqueue_def)
    next
      case rN: False
      then have "ip < length q" using bd True lL by (simp add: bfs_kids_def)
      then show ?thesis
        using True lL rN c ip pend_push[OF pe, of r] enqueue_spec[OF hr, of ip q]
        by (simp add: bfs_sons_def bfs_kids_def enqueue_def)
    qed
  next
    case lN: False
    show ?thesis
    proof (cases "r = Leaf")
      case rL: True
      have "ip < length q" using bd True lN rL by (simp add: bfs_kids_def)
      then show ?thesis
        using True lN rL c ip pend_push[OF pe, of l] enqueue_spec[OF hl, of ip q]
        by (simp add: bfs_sons_def bfs_kids_def enqueue_def)
    next
      case rN: False
      have b: "Suc ip < length q" using bd True lN rN by (simp add: bfs_kids_def)
      have p1: "pend (q[ip := rp l]) i (ts @ [l])"
        using pend_push[OF pe, of l] b ip by simp
      have p2: "pend (q[ip := rp l, Suc ip := rp r]) i ((ts @ [l]) @ [r])"
        using pend_push[OF p1, of r] b ip by simp
      show ?thesis
        using True lN rN c ip b p2 enqueue_spec[OF hl, of ip q]
          enqueue_spec[OF hr, of "Suc ip" "q[ip := rp l]"]
        by (simp add: bfs_sons_def bfs_kids_def)
    qed
  qed
next
  case False
  then have R: "type AND BFS_RIGHT_FIRST \<noteq> 0" using dir by simp
  show ?thesis
  proof (cases "l = Leaf")
    case lL: True
    show ?thesis
    proof (cases "r = Leaf")
      case rL: True
      then show ?thesis
        using False R lL c pe by (simp add: bfs_sons_def bfs_kids_def enqueue_def)
    next
      case rN: False
      then have "ip < length q" using bd False lL by (simp add: bfs_kids_def)
      then show ?thesis
        using False R lL rN c ip pend_push[OF pe, of r] enqueue_spec[OF hr, of ip q]
        by (simp add: bfs_sons_def bfs_kids_def enqueue_def)
    qed
  next
    case lN: False
    show ?thesis
    proof (cases "r = Leaf")
      case rL: True
      have "ip < length q" using bd False lN rL by (simp add: bfs_kids_def)
      then show ?thesis
        using False R lN rL c ip pend_push[OF pe, of l] enqueue_spec[OF hl, of ip q]
        by (simp add: bfs_sons_def bfs_kids_def enqueue_def)
    next
      case rN: False
      have b: "Suc ip < length q" using bd False lN rN by (simp add: bfs_kids_def)
      have p1: "pend (q[ip := rp r]) i (ts @ [r])"
        using pend_push[OF pe, of r] b ip by simp
      have p2: "pend (q[ip := rp r, Suc ip := rp l]) i ((ts @ [r]) @ [l])"
        using pend_push[OF p1, of l] b ip by simp
      show ?thesis
        using False R lN rN c ip b p2 enqueue_spec[OF hr, of ip q]
          enqueue_spec[OF hl, of "Suc ip" "q[ip := rp r]"]
        by (simp add: bfs_sons_def bfs_kids_def)
    qed
  qed
qed

lemma bfs_kids_facts:
  "\<forall>t \<in> set (bfs_kids type l r). t \<noteq> Leaf"
  "sum_list (map size (bfs_kids type l r)) = size l + size r"
  "sum_list (map (\<lambda>t. mset (inorder t)) (bfs_kids type l r)) = mset (inorder l) + mset (inorder r)"
  "set (bfs_kids type l r) \<subseteq> {l, r}"
  by (auto simp add: bfs_kids_def)

lemma length_le_sum_size:
  "\<forall>t \<in> set ts. t \<noteq> Leaf \<Longrightarrow> length ts \<le> sum_list (map size ts)"
proof (induction ts)
  case Nil
  then show ?case by simp
next
  case (Cons t ts)
  then have "1 \<le> size t" by (cases t) auto
  then show ?case using Cons by simp
qed


text \<open>
  The loop, for any form of output \<open>P i es q kp\<close> (the entries \<open>es\<close> visited
  in the first \<open>i\<close> turns are in the array) that the visit extends by one
  entry and that only depends on the slots below \<open>i\<close>.
\<close>

lemma bfs_loop_inv:
  assumes vis: "\<And>i es q kp a nd. P i es q kp \<Longrightarrow> i < length q \<Longrightarrow>
      \<exists>q' kp'. bfs_visit opts i a nd (q, kp) = Inr (q', kp') \<and> length q' = length q
        \<and> (\<forall>j. i < j \<longrightarrow> j < length q \<longrightarrow> q' ! j = q ! j)
        \<and> P (Suc i) (es @ [(a, key nd, data nd)]) q' kp'"
    and stab: "\<And>i es q kp q'. P i es q kp \<Longrightarrow> length q' = length q \<Longrightarrow>
      (\<forall>j < i. q' ! j = q ! j) \<Longrightarrow> P i es q' kp"
    and dir: "type AND BFS_LEFT_FIRST \<noteq> 0 \<or> type AND BFS_RIGHT_FIRST \<noteq> 0"
  shows "P i es q kp \<Longrightarrow> length q = i + m \<Longrightarrow>
    \<forall>t \<in> set ts. t \<noteq> Leaf \<and> (\<exists>p. htree h p t) \<Longrightarrow>
    ip = i + length ts \<Longrightarrow> pend q i ts \<Longrightarrow> sum_list (map size ts) = m \<Longrightarrow>
    \<exists>q' ip' kp' es'. bfs_loop m type opts h i (q, ip, kp) = Inr (q', ip', kp')
      \<and> length q' = i + m \<and> P (i + m) es' q' kp'
      \<and> mset es' = mset es + sum_list (map (\<lambda>t. mset (inorder t)) ts)"
proof (induction m arbitrary: i es q kp ts ip)
  case 0
  have "length ts \<le> 0" using length_le_sum_size[of ts] 0(3,6) by auto
  then show ?case using 0 by auto
next
  case (Suc m)
  obtain t1 ts' where ts: "ts = t1 # ts'" using Suc(7) by (cases ts) auto
  obtain l e r where t1: "t1 = Node l e r" using Suc(4) ts by (cases t1) auto
  obtain a k d where e: "e = (a, k, d)" by (cases e)
  obtain p where hp: "htree h p t1" using Suc(4) ts by auto
  have ha: "h a = Some \<lparr>father = p, left_son = rp l, right_son = rp r, key = k, data = d\<rparr>"
    and hl: "htree h a l" and hr: "htree h a r"
    using hp t1 e by auto
  have il: "i < length q" using Suc(3) by simp
  have "0 < length ts" using ts by simp
  then have "q ! (i + 0) = rp (ts ! 0)" using Suc(6) unfolding pend_def by blast
  then have qi: "q ! i = a" using ts t1 e by simp
  let ?nd = "\<lparr>father = p, left_son = rp l, right_son = rp r, key = k, data = d\<rparr>"
  obtain q1 kp1 where v: "bfs_visit opts i a ?nd (q, kp) = Inr (q1, kp1)"
    and l1: "length q1 = length q"
    and u1: "\<forall>j. i < j \<longrightarrow> j < length q \<longrightarrow> q1 ! j = q ! j"
    and P1: "P (Suc i) (es @ [e]) q1 kp1"
    using vis[OF Suc(2) il, of a ?nd] e by auto
  have pe1: "pend q1 (Suc i) ts'"
    unfolding pend_def
  proof (intro allI impI)
    fix j assume j: "j < length ts'"
    have "length ts \<le> sum_list (map size ts)"
      using length_le_sum_size[of ts] Suc(4) by blast
    then have "Suc i + j < length q" using j ts Suc(3,7) by simp
    then have "q1 ! (Suc i + j) = q ! (Suc i + j)" using u1 by simp
    also have "\<dots> = rp (ts' ! j)" using Suc(6) j ts by (auto simp add: pend_def)
    finally show "q1 ! (Suc i + j) = rp (ts' ! j)" .
  qed
  let ?ks = "bfs_kids type l r"
  let ?ts2 = "ts' @ ?ks"
  have nl: "\<forall>t \<in> set ?ts2. t \<noteq> Leaf \<and> (\<exists>p. htree h p t)"
    using Suc(4) ts bfs_kids_facts(1,4)[of type l r] hl hr by auto
  have sm: "sum_list (map size ?ts2) = m"
    using Suc(7) ts t1 bfs_kids_facts(2)[of type l r] by simp
  have "length ?ts2 \<le> sum_list (map size ?ts2)"
    using length_le_sum_size[OF ball_conj_distrib[THEN iffD1, THEN conjunct1, OF nl]] .
  then have bd: "ip + length ?ks \<le> length q1"
    using sm Suc(3,5) ts l1 by simp
  have ip1: "ip = Suc i + length ts'" using Suc(5) ts by simp
  obtain q2 where s: "bfs_sons type ?nd (q1, ip) = Inr (q2, ip + length ?ks)"
    and l2: "length q2 = length q1"
    and u2: "\<forall>j < ip. q2 ! j = q1 ! j"
    and pe2: "pend q2 (Suc i) ?ts2"
    using sons_spec[OF _ _ hl hr dir pe1 ip1 bd, of ?nd] by auto
  have P2: "P (Suc i) (es @ [e]) q2 kp1"
    using stab[OF P1 l2] u2 ip1 by simp
  have ip2: "ip + length ?ks = Suc i + length ?ts2" using ip1 by simp
  have len2: "length q2 = Suc i + m" using l2 l1 Suc(3) by simp
  obtain q' ip' kp' es' where
    r: "bfs_loop m type opts h (Suc i) (q2, ip + length ?ks, kp1) = Inr (q', ip', kp')"
    and l': "length q' = Suc i + m" and P': "P (Suc i + m) es' q' kp'"
    and ms: "mset es' = mset (es @ [e]) + sum_list (map (\<lambda>t. mset (inorder t)) ?ts2)"
    using Suc(1)[OF P2 len2 nl ip2 pe2 sm] by blast
  have step: "bfs_step type opts h i (q, ip, kp) = Inr (q2, ip + length ?ks, kp1)"
    using il qi ha v s by (simp add: bfs_step_def read_slot_def deref_def)
  have "mset es' = mset es + sum_list (map (\<lambda>t. mset (inorder t)) ts)"
    using ms ts t1 bfs_kids_facts(3)[of type l r] by simp
  then show ?case using step r l' P' by auto
qed

lemma out_ptr_stab:
  "out_ptr sel i es q kp \<Longrightarrow> length q' = length q \<Longrightarrow> (\<forall>j < i. q' ! j = q ! j) \<Longrightarrow>
   out_ptr sel i es q' kp"
  by (simp add: out_ptr_def)

lemma out_key_stab:
  "out_key i es q kp \<Longrightarrow> length q' = length q \<Longrightarrow> (\<forall>j < i. q' ! j = q ! j) \<Longrightarrow>
   out_key i es q' kp"
proof -
  assume a: "out_key i es q kp" "length q' = length q" "\<forall>j < i. q' ! j = q ! j"
  have "read_int q' j = read_int q j" if "j < i" for j
  proof -
    have "j div 2 < i" using that by simp
    then show ?thesis using a(3) by (simp add: read_int_def)
  qed
  then show ?thesis using a(1) by (simp add: out_key_def)
qed

lemma out_ptr_snoc:
  assumes "out_ptr sel i es q kp" "i < length q"
  shows "out_ptr sel (Suc i) (es @ [e]) (q[i := sel e]) kp"
  using assms by (auto simp add: out_ptr_def nth_append less_Suc_eq)

lemma visit_data_bfs:
  assumes o: "opts AND SEARCH_DATA \<noteq> 0" and P: "out_ptr (\<lambda>e. snd (snd e)) i es q kp"
    and i: "i < length q"
  shows "\<exists>q' kp'. bfs_visit opts i a nd (q, kp) = Inr (q', kp') \<and> length q' = length q
        \<and> (\<forall>j. i < j \<longrightarrow> j < length q \<longrightarrow> q' ! j = q ! j)
        \<and> out_ptr (\<lambda>e. snd (snd e)) (Suc i) (es @ [(a, key nd, data nd)]) q' kp'"
  using o i out_ptr_snoc[OF P i, of "(a, key nd, data nd)"]
  by (simp add: bfs_visit_def write_slot_def)

lemma visit_nodes_bfs:
  assumes o: "opts AND SEARCH_DATA = 0" "opts AND SEARCH_KEYS = 0" "opts AND SEARCH_NODES \<noteq> 0"
    and P: "out_ptr fst i es q kp" and i: "i < length q"
  shows "\<exists>q' kp'. bfs_visit opts i a nd (q, kp) = Inr (q', kp') \<and> length q' = length q
        \<and> (\<forall>j. i < j \<longrightarrow> j < length q \<longrightarrow> q' ! j = q ! j)
        \<and> out_ptr fst (Suc i) (es @ [(a, key nd, data nd)]) q' kp'"
  using o i out_ptr_snoc[OF P i, of "(a, key nd, data nd)"]
  by (simp add: bfs_visit_def write_slot_def)

lemma visit_keys_bfs:
  assumes o: "opts AND SEARCH_DATA = 0" "opts AND SEARCH_KEYS \<noteq> 0"
    and P: "out_key i es q kp" and i: "i < length q"
  shows "\<exists>q' kp'. bfs_visit opts i a nd (q, kp) = Inr (q', kp') \<and> length q' = length q
        \<and> (\<forall>j. i < j \<longrightarrow> j < length q \<longrightarrow> q' ! j = q ! j)
        \<and> out_key (Suc i) (es @ [(a, key nd, data nd)]) q' kp'"
proof -
  have kp: "kp = i" and le: "length es = i" and rd: "\<forall>j < i. read_int q j = fst (snd (es ! j))"
    using P by (auto simp add: out_key_def)
  have d: "i div 2 < length q" using i by simp
  obtain q' where w: "write_int i (key nd) q = Inr q'" and q': "q' = q[i div 2 :=
      (if even i then with_lo (q ! (i div 2)) (key nd) else with_hi (q ! (i div 2)) (key nd))]"
    using d by (simp add: write_int_def Let_def)
  have run: "bfs_visit opts i a nd (q, kp) = Inr (q', Suc i)"
    using o w kp by (simp add: bfs_visit_def)
  have len: "length q' = length q" using q' by simp
  have keep: "\<forall>j. i < j \<longrightarrow> j < length q \<longrightarrow> q' ! j = q ! j"
    using q' by auto
  have "read_int q' j = fst (snd ((es @ [(a, key nd, data nd)]) ! j))" if "j < Suc i" for j
  proof (cases "j < i")
    case True
    then show ?thesis using read_write_int_below[OF d w True] rd le by (simp add: nth_append)
  next
    case False
    then have "j = i" using that by simp
    then show ?thesis using read_write_int_same[OF d w] le by (simp add: nth_append)
  qed
  then have "out_key (Suc i) (es @ [(a, key nd, data nd)]) q' (Suc i)"
    using le by (simp add: out_key_def)
  then show ?thesis using run len keep by blast
qed

text \<open>
  The breadth-first search of the tree the store holds, when both allocations
  succeed: every entry once, in the form asked for.
\<close>

lemma bfs_heap:
  assumes I: "holds tr h t" and tn: "t \<noteq> Leaf"
    and ty: "0 < sint type" and op: "0 < sint opts"
    and dir: "type AND BFS_LEFT_FIRST \<noteq> 0 \<or> type AND BFS_RIGHT_FIRST \<noteq> 0"
    and mode: "opts AND SEARCH_KEYS \<noteq> 0 \<or> opts AND SEARCH_DATA \<noteq> 0 \<or> opts AND SEARCH_NODES \<noteq> 0"
    and one: "\<not> (opts AND SEARCH_DATA \<noteq> 0 \<and> opts AND SEARCH_KEYS \<noteq> 0)"
  shows "\<exists>es. mset es = mset (inorder t)
    \<and> splay_int_bfs True True (Some tr) type opts h = Inr (out_buffer opts es)"
proof -
  have H: "htree h 0 t" and rt: "root tr = rp t" and cnt: "unat (nodes_count tr) = size t"
    using I by (auto simp add: holds_def)
  have r0: "root tr \<noteq> 0" using rt tn htree_rp_nz[OF H] by simp
  let ?n = "size t"
  have n1: "0 < ?n" using tn by (cases t) auto
  let ?q0 = "(replicate ?n 0)[0 := rp t]"
  have w0: "write_slot 0 (root tr) (replicate (unat (nodes_count tr)) 0) = Inr ?q0"
    using n1 cnt rt by (simp add: write_slot_def)
  have l0: "length ?q0 = 0 + ?n" by simp
  have ts: "\<forall>s \<in> set [t]. s \<noteq> Leaf \<and> (\<exists>p. htree h p s)" using tn H by auto
  have ip: "1 = 0 + length [t]" by simp
  have pe: "pend ?q0 0 [t]" using n1 by (simp add: pend_def)
  have sm: "sum_list (map size [t]) = ?n" by simp
  have pre: "splay_int_bfs True True (Some tr) type opts h =
      bnd (bfs_loop ?n type opts h 0 (?q0, 1, 0)) (\<lambda>(bfs_res, int_ptr, key_ptr).
        if opts AND SEARCH_KEYS \<noteq> 0 then Inr (Some (IntBuf (map (read_int bfs_res) [0..<?n])))
        else Inr (Some (PtrBuf bfs_res)))"
    using r0 ty op dir mode w0 cnt by (simp add: splay_int_bfs_def Let_def cong: if_cong)
  show ?thesis
  proof (cases "opts AND SEARCH_DATA \<noteq> 0")
    case True
    then have nk: "opts AND SEARCH_KEYS = 0" using one by simp
    have P0: "out_ptr (\<lambda>e. snd (snd e)) 0 [] ?q0 0" by (simp add: out_ptr_def)
    have vis: "\<And>i es q kp a nd. out_ptr (\<lambda>e. snd (snd e)) i es q kp \<Longrightarrow> i < length q \<Longrightarrow>
        \<exists>q' kp'. bfs_visit opts i a nd (q, kp) = Inr (q', kp') \<and> length q' = length q
          \<and> (\<forall>j. i < j \<longrightarrow> j < length q \<longrightarrow> q' ! j = q ! j)
          \<and> out_ptr (\<lambda>e. snd (snd e)) (Suc i) (es @ [(a, key nd, data nd)]) q' kp'"
      by (rule visit_data_bfs[OF True])
    have stab: "\<And>i es q kp q'. out_ptr (\<lambda>e. snd (snd e)) i es q kp \<Longrightarrow> length q' = length q \<Longrightarrow>
        (\<forall>j < i. q' ! j = q ! j) \<Longrightarrow> out_ptr (\<lambda>e. snd (snd e)) i es q' kp"
      by (rule out_ptr_stab)
    have L: "\<exists>q' ip' kp' es'. bfs_loop ?n type opts h 0 (?q0, 1, 0) = Inr (q', ip', kp')
        \<and> length q' = 0 + ?n \<and> out_ptr (\<lambda>e. snd (snd e)) (0 + ?n) es' q' kp'
        \<and> mset es' = mset [] + sum_list (map (\<lambda>t. mset (inorder t)) [t])"
      apply (rule bfs_loop_inv[where P = "out_ptr (\<lambda>e. snd (snd e))" and opts = opts and ts = "[t]" and es = "[]"])
              apply (rule vis; assumption)
             apply (rule stab; assumption)
            apply (rule dir)
           apply (rule P0)
          apply (rule l0)
         apply (rule ts)
        apply (rule ip)
       apply (rule pe)
      apply (rule sm)
      done
    obtain q' ip' kp' es' where r: "bfs_loop ?n type opts h 0 (?q0, 1, 0) = Inr (q', ip', kp')"
      and l': "length q' = 0 + ?n" and P': "out_ptr (\<lambda>e. snd (snd e)) (0 + ?n) es' q' kp'"
      and ms: "mset es' = mset [] + sum_list (map (\<lambda>t. mset (inorder t)) [t])"
      using L by blast
    have "q' = map (\<lambda>e. snd (snd e)) es'"
      using l' P' by (intro nth_equalityI) (auto simp add: out_ptr_def)
    then show ?thesis using pre r ms True nk by (auto simp add: out_buffer_def)
  next
    case nd: False
    show ?thesis
    proof (cases "opts AND SEARCH_KEYS \<noteq> 0")
      case True
      have P0: "out_key 0 [] ?q0 0" by (simp add: out_key_def)
      have nd0: "opts AND SEARCH_DATA = 0" using nd by simp
    have vis: "\<And>i es q kp a nd. out_key i es q kp \<Longrightarrow> i < length q \<Longrightarrow>
        \<exists>q' kp'. bfs_visit opts i a nd (q, kp) = Inr (q', kp') \<and> length q' = length q
          \<and> (\<forall>j. i < j \<longrightarrow> j < length q \<longrightarrow> q' ! j = q ! j)
          \<and> out_key (Suc i) (es @ [(a, key nd, data nd)]) q' kp'"
      by (rule visit_keys_bfs[OF nd0 True])
    have stab: "\<And>i es q kp q'. out_key i es q kp \<Longrightarrow> length q' = length q \<Longrightarrow>
        (\<forall>j < i. q' ! j = q ! j) \<Longrightarrow> out_key i es q' kp"
      by (rule out_key_stab)
    have L: "\<exists>q' ip' kp' es'. bfs_loop ?n type opts h 0 (?q0, 1, 0) = Inr (q', ip', kp')
        \<and> length q' = 0 + ?n \<and> out_key (0 + ?n) es' q' kp'
        \<and> mset es' = mset [] + sum_list (map (\<lambda>t. mset (inorder t)) [t])"
      apply (rule bfs_loop_inv[where P = "out_key" and opts = opts and ts = "[t]" and es = "[]"])
              apply (rule vis; assumption)
             apply (rule stab; assumption)
            apply (rule dir)
           apply (rule P0)
          apply (rule l0)
         apply (rule ts)
        apply (rule ip)
       apply (rule pe)
      apply (rule sm)
      done
      obtain q' ip' kp' es' where r: "bfs_loop ?n type opts h 0 (?q0, 1, 0) = Inr (q', ip', kp')"
        and l': "length q' = 0 + ?n" and P': "out_key (0 + ?n) es' q' kp'"
        and ms: "mset es' = mset [] + sum_list (map (\<lambda>t. mset (inorder t)) [t])"
        using L by blast
      have "map (read_int q') [0..<?n] = map (\<lambda>e. fst (snd e)) es'"
        using l' P' by (intro nth_equalityI) (auto simp add: out_key_def)
      then show ?thesis using pre r ms True nd by (auto simp add: out_buffer_def)
    next
      case nk: False
      then have nn: "opts AND SEARCH_NODES \<noteq> 0" using mode nd by simp
      have P0: "out_ptr fst 0 [] ?q0 0" by (simp add: out_ptr_def)
      have nd0: "opts AND SEARCH_DATA = 0" and nk0: "opts AND SEARCH_KEYS = 0"
        using nd nk by simp_all
    have vis: "\<And>i es q kp a nd. out_ptr fst i es q kp \<Longrightarrow> i < length q \<Longrightarrow>
        \<exists>q' kp'. bfs_visit opts i a nd (q, kp) = Inr (q', kp') \<and> length q' = length q
          \<and> (\<forall>j. i < j \<longrightarrow> j < length q \<longrightarrow> q' ! j = q ! j)
          \<and> out_ptr fst (Suc i) (es @ [(a, key nd, data nd)]) q' kp'"
      by (rule visit_nodes_bfs[OF nd0 nk0 nn])
    have stab: "\<And>i es q kp q'. out_ptr fst i es q kp \<Longrightarrow> length q' = length q \<Longrightarrow>
        (\<forall>j < i. q' ! j = q ! j) \<Longrightarrow> out_ptr fst i es q' kp"
      by (rule out_ptr_stab)
    have L: "\<exists>q' ip' kp' es'. bfs_loop ?n type opts h 0 (?q0, 1, 0) = Inr (q', ip', kp')
        \<and> length q' = 0 + ?n \<and> out_ptr fst (0 + ?n) es' q' kp'
        \<and> mset es' = mset [] + sum_list (map (\<lambda>t. mset (inorder t)) [t])"
      apply (rule bfs_loop_inv[where P = "out_ptr fst" and opts = opts and ts = "[t]" and es = "[]"])
              apply (rule vis; assumption)
             apply (rule stab; assumption)
            apply (rule dir)
           apply (rule P0)
          apply (rule l0)
         apply (rule ts)
        apply (rule ip)
       apply (rule pe)
      apply (rule sm)
      done
      obtain q' ip' kp' es' where r: "bfs_loop ?n type opts h 0 (?q0, 1, 0) = Inr (q', ip', kp')"
        and l': "length q' = 0 + ?n" and P': "out_ptr fst (0 + ?n) es' q' kp'"
        and ms: "mset es' = mset [] + sum_list (map (\<lambda>t. mset (inorder t)) [t])"
        using L by blast
      have "q' = map fst es'"
        using l' P' by (intro nth_equalityI) (auto simp add: out_ptr_def)
      then show ?thesis using pre r ms nd nk nn by (auto simp add: out_buffer_def)
    qed
  qed
qed

section \<open>Searches\<close>

lemma search_frame:
  assumes "opts AND SEARCH_SPLAY = 0" and "splay_int_search fuel tree k opts h = Inr (r, h')"
  shows "h' = h"
  using assms
  by (auto simp add: splay_int_search_def bnd_def deref_def
      split: if_splits option.splits sum.splits)

lemma search_plain_heap:
  assumes I: "holds tr h t" and fuel: "size t < fuel"
    and o: "0 < sint opts" "opts AND SEARCH_SPLAY = 0"
  shows "splay_int_search fuel (Some tr) k opts h =
     Inr (case find_ctx k t [] of None \<Rightarrow> 0
          | Some (s, c) \<Rightarrow> (case s of Leaf \<Rightarrow> 0
              | Node l e r \<Rightarrow> search_value opts (fst e) (snd (snd e))), h)"
proof (cases "t = Leaf")
  case True
  then have "root tr = 0" using I by (simp add: holds_def)
  then show ?thesis using o True by (simp add: splay_int_search_def spli_search_node_def)
next
  case False
  have H: "htree h 0 t" and rt: "root tr = rp t" using I by (auto simp add: holds_def)
  have r0: "root tr \<noteq> 0" using rt False htree_rp_nz[OF H] by simp
  have "height t \<le> size t" by (rule height_le_size_tree)
  then have hf: "height t < fuel" using fuel by simp
  have se: "search_loop fuel (rp t) k h =
      Inr (case find_ctx k t [] of None \<Rightarrow> 0 | Some (s', c') \<Rightarrow> rp s')"
    by (rule search_loop_heap[OF H hf])
  show ?thesis
  proof (cases "find_ctx k t []")
    case None
    then show ?thesis using se r0 rt o
      by (simp add: splay_int_search_def spli_search_node_def)
  next
    case (Some p)
    obtain s c where p: "p = (s, c)" by (cases p)
    have f: "find_ctx k t [] = Some (s, c)" using Some p by simp
    obtain l a d r where s: "s = Node l (a, k, d) r" and pl: "plug s c = t"
      using find_ctx_plug[OF f] by auto
    have "htree h (ctx_par 0 c) s" using H htree_plug[of h 0 s c] pl by simp
    then have a0: "a \<noteq> 0" and ha: "\<exists>nd. h a = Some nd \<and> data nd = d" using s by auto
    show ?thesis using se r0 rt o f s a0 ha
      by (auto simp add: splay_int_search_def spli_search_node_def deref_def search_value_def)
  qed
qed

lemma search_splay_holds:
  assumes I: "holds tr h t" and fuel: "size t < fuel"
    and o: "0 < sint opts" "opts AND SEARCH_SPLAY \<noteq> 0"
    and f: "find_ctx k t [] = Some (s, c)"
  shows "\<exists>h' L d R. tree_splay k t = Node L (rp t, k, d) R \<and> holds tr h' (tree_splay k t)
     \<and> splay_int_search fuel (Some tr) k opts h = Inr (search_value opts (rp t) d, h')"
proof -
  have H: "htree h 0 t" and rt: "root tr = rp t" and D: "distinct (addrs t)"
    and dm: "dom h = set (addrs t)" and cnt: "unat (nodes_count tr) = size t"
    using I by (auto simp add: holds_def)
  obtain h1 where se: "search_loop fuel (rp t) k h = Inr (rp s)" and s0: "rp s \<noteq> 0"
    and sl: "splay_loop fuel (rp t) (rp s) h = Inr (rp t, h1)"
    and H1: "htree h1 0 (tree_splay k t)"
    and f1: "\<forall>x. x \<notin> set (addrs t) \<longrightarrow> h1 x = h x"
    using search_splay_heap[OF H D fuel f] by blast
  obtain L d R where ts: "tree_splay k t = Node L (rp t, k, d) R"
    using tree_delete_found[OF f] by blast
  have r0: "rp t \<noteq> 0" and hr: "\<exists>nd. h1 (rp t) = Some nd \<and> data nd = d"
    using H1 unfolding ts by auto
  have ma: "mset (addrs (tree_splay k t)) = mset (addrs t)" by (rule tree_splay_addrs)
  have D1: "distinct (addrs (tree_splay k t))" using mset_eq_distinct[OF ma] D by simp
  have S1: "set (addrs (tree_splay k t)) = set (addrs t)" by (rule mset_eq_setD[OF ma])
  have sz: "size (tree_splay k t) = size t" by (rule mset_addrs_size[OF ma])
  have dm1: "dom h1 = set (addrs (tree_splay k t))"
  proof (rule set_eqI)
    fix x
    show "(x \<in> dom h1) = (x \<in> set (addrs (tree_splay k t)))"
    proof (cases "x \<in> set (addrs (tree_splay k t))")
      case True
      have "h1 x \<noteq> None" by (rule htree_alloc[OF H1 True])
      then show ?thesis using True by (simp only: domIff simp_thms)
    next
      case False
      then have "x \<notin> set (addrs t)" using S1 by simp
      then have "h x = None" "h1 x = h x" using dm f1 by auto
      then show ?thesis using False by auto
    qed
  qed
  have rr: "rp (tree_splay k t) = rp t" unfolding ts by simp
  have hold: "holds tr h1 (tree_splay k t)"
    using H1 rt rr D1 dm1 cnt sz by (simp add: holds_def)
  have run: "splay_int_search fuel (Some tr) k opts h = Inr (search_value opts (rp t) d, h1)"
    using o rt se s0 sl hr r0
    by (auto simp add: splay_int_search_def spli_search_node_def deref_def search_value_def)
  show ?thesis using ts hold run by blast
qed

section \<open>The order around every node\<close>

lemma sorted_bst_le: "sorted_keys t \<Longrightarrow> bst_le t"
proof (induction t)
  case Leaf
  then show ?case by simp
next
  case (Node l e r)
  obtain a k d where e: "e = (a, k, d)" by (cases e)
  have s: "sorted (map sint (keys l) @ sint k # map sint (keys r))"
    using Node.prems unfolding sorted_keys_def e by (simp add: keys_simps)
  then have "sorted_keys l" "sorted_keys r"
    unfolding sorted_keys_def by (auto simp add: sorted_append)
  moreover have "\<forall>x \<in> set (keys l). sint x \<le> sint k" "\<forall>x \<in> set (keys r). sint k \<le> sint x"
    using s by (auto simp add: sorted_append)
  ultimately show ?case using Node.IH unfolding e by (simp add: list_all_iff)
qed

lemma run_ops_counts:
  "run_ops fuel ops s = Inr (s', n, m) \<Longrightarrow> n + m \<le> length ops"
proof (induction fuel ops s arbitrary: s' n m rule: run_ops.induct)
  case (1 fuel s)
  then show ?case by simp
next
  case (2 fuel k d a ops tr h)
  from "2.prems" obtain r tr' h' s1 n1 m1 where
    a: "splay_int_insert fuel a tr k d h = Inr (r, tr', h')"
    and b: "run_ops fuel ops (tr', h') = Inr (s1, n1, m1)"
    and c: "n = (if r \<noteq> 0 then Suc n1 else n1)" "m = m1"
    by (auto simp add: bnd_def split: sum.splits)
  have "n1 + m1 \<le> length ops" using "2.IH" a b by simp
  then show ?case using c by simp
next
  case (3 fuel k opts ops tr h)
  from "3.prems" obtain r tr' h' s1 n1 m1 where
    a: "splay_int_delete fuel tr k opts h = Inr (r, tr', h')"
    and b: "run_ops fuel ops (tr', h') = Inr (s1, n1, m1)"
    and c: "m = (if r = 1 then Suc m1 else m1)" "n = n1"
    by (auto simp add: bnd_def split: sum.splits)
  have "n1 + m1 \<le> length ops" using "3.IH" a b by simp
  then show ?case using c by simp
qed

section \<open>The example states\<close>

text \<open>The fuel of the loops, given as a numeral.\<close>

lemma fuel_numeral:
  "(3 :: nat) = Suc (Suc (Suc 0))"
  "(6 :: nat) = Suc (Suc (Suc (Suc (Suc (Suc 0)))))"
  by simp_all

lemmas eval_defs = create_splay_int_tree_def splay_int_insert_def splay_int_delete_def
  splay_int_search_def spli_search_node_def spli_create_node_def spli_insert_left_subtree_def
  spli_insert_right_subtree_def spli_cut_left_subtree_def spli_cut_right_subtree_def
  spli_swap_info_def spli_right_rotation_def spli_left_rotation_def is_left_of_def
  is_right_of_def and_then_def spli_splay_def spli_join_def bnd_def deref_def
  set_father_def set_left_son_def set_right_son_def set_key_def set_data_def Let_def
  fuel_numeral new_state_def

lemma new_state_holds:
  "holds \<lparr>root = 0, nodes_count = 0, max_nodes = - 1\<rparr> Map.empty Leaf"
  by (simp add: holds_def addrs_def)

lemma two_nodes_built:
  "run_ops 3 [Insert 1 8 1, Insert 5 7 2] new_state = Inr ((Some two_nodes_tree, two_nodes_heap), 2, 0)"
  by (simp add: eval_defs two_nodes_tree_def two_nodes_heap_def)

lemma two_nodes_holds: "holds two_nodes_tree two_nodes_heap two_nodes_shape"
  by (auto simp add: holds_def addrs_def two_nodes_tree_def two_nodes_heap_def two_nodes_shape_def)

lemma same_keys_built:
  "run_ops 3 [Insert 5 7 1, Insert 5 8 2] new_state = Inr ((Some two_nodes_tree, same_keys_heap), 2, 0)"
  by (simp add: eval_defs two_nodes_tree_def same_keys_heap_def)

lemma same_keys_holds: "holds two_nodes_tree same_keys_heap same_keys_shape"
  by (auto simp add: holds_def addrs_def two_nodes_tree_def same_keys_heap_def same_keys_shape_def)

lemma far_keys_built:
  "run_ops 3 [Insert (- 1) 7 1, Insert 2147483647 8 2] new_state
     = Inr ((Some two_nodes_tree, far_keys_heap), 2, 0)"
  by (simp add: eval_defs two_nodes_tree_def far_keys_heap_def)

lemma far_keys_holds: "holds two_nodes_tree far_keys_heap far_keys_shape"
  by (auto simp add: holds_def addrs_def two_nodes_tree_def far_keys_heap_def far_keys_shape_def)

lemma one_node_holds: "holds one_node_tree one_node_heap (Node Leaf (1, 1, 7) Leaf)"
  by (auto simp add: holds_def addrs_def one_node_tree_def one_node_heap_def)

lemma mset_orders:
  "mset (preorder t) = mset (inorder t)" "mset (postorder t) = mset (inorder t)"
  by (induction t) auto

lemma run_from_new:
  assumes a: "allocs_ok fuel ops new_state" and f: "length ops < fuel"
  shows "\<exists>tr h t n m. run_ops fuel ops new_state = Inr ((Some tr, h), n, m)
    \<and> holds tr h t \<and> size t + m = n \<and> n + m \<le> length ops
    \<and> (keys_fit (map op_key ops) \<longrightarrow> sorted_keys t)"
proof -
  let ?tr = "\<lparr>root = 0, nodes_count = 0, max_nodes = - 1\<rparr>"
  have ns: "new_state = (Some ?tr, Map.empty)"
    by (simp add: new_state_def create_splay_int_tree_def)
  have a': "allocs_ok fuel ops (Some ?tr, Map.empty)" using a ns by simp
  have f': "size (Leaf :: entry tree) + length ops < fuel" using f by simp
  have m: "max_nodes ?tr = - 1" by simp
  obtain tr' h' t' n m where r: "run_ops fuel ops (Some ?tr, Map.empty) = Inr ((Some tr', h'), n, m)"
    and I: "holds tr' h' t'" and sz: "size t' + m = size (Leaf :: entry tree) + n"
    and so: "sorted_keys Leaf \<and> keys_fit (keys Leaf @ map op_key ops) \<longrightarrow> sorted_keys t'"
    using run_ops_inv[OF new_state_holds m a' f'] by blast
  have c: "n + m \<le> length ops" by (rule run_ops_counts[OF r])
  have "keys_fit (map op_key ops) \<longrightarrow> sorted_keys t'"
    using so by (simp add: sorted_keys_def)
  then show ?thesis using r I sz c ns by auto
qed

text \<open>
  C4.  On a tree created empty, after any sequence of calls of
  \<open>splay_int_insert\<close> and \<open>splay_int_delete\<close> in which every allocation
  succeeds, the node counter is \<open>n - m\<close>, where \<open>n\<close> insertions returned a
  counter other than \<open>0\<close> and \<open>m\<close> deletions returned \<open>1\<close>; the sequence
  may hold calls that fail.  An insertion into a full tree and a deletion of
  a key that is not in the tree return \<open>0\<close> and leave the tree structure and
  the store as they were.
\<close>

theorem size_accounting:
  "(allocs_ok fuel ops new_state \<and> length ops < fuel \<longrightarrow>
      (\<exists>tr h n m. run_ops fuel ops new_state = Inr ((Some tr, h), n, m)
         \<and> m \<le> n \<and> unat (nodes_count tr) = n - m))
   \<and> (nodes_count tr1 = max_nodes tr1 \<longrightarrow>
        splay_int_insert fuel1 a (Some tr1) k1 d h1 = Inr (0, Some tr1, h1))
   \<and> (holds tr2 h2 t2 \<and> size t2 < fuel2 \<and> k2 \<notin> set (keys t2) \<longrightarrow>
        splay_int_delete fuel2 (Some tr2) k2 opts h2 = Inr (0, Some tr2, h2))"
proof (intro conjI impI)
  assume "allocs_ok fuel ops new_state \<and> length ops < fuel"
  then obtain tr h t n m where r: "run_ops fuel ops new_state = Inr ((Some tr, h), n, m)"
    and I: "holds tr h t" and sz: "size t + m = n"
    using run_from_new[of fuel ops] by blast
  have "unat (nodes_count tr) = size t" using I by (simp add: holds_def)
  then have "m \<le> n \<and> unat (nodes_count tr) = n - m" using sz by simp
  then show "\<exists>tr h n m. run_ops fuel ops new_state = Inr ((Some tr, h), n, m)
         \<and> m \<le> n \<and> unat (nodes_count tr) = n - m"
    using r by blast
next
  assume "nodes_count tr1 = max_nodes tr1"
  then show "splay_int_insert fuel1 a (Some tr1) k1 d h1 = Inr (0, Some tr1, h1)"
    by (rule insert_full)
next
  assume a: "holds tr2 h2 t2 \<and> size t2 < fuel2 \<and> k2 \<notin> set (keys t2)"
  have "find_ctx k2 t2 [] = None"
  proof (cases "find_ctx k2 t2 []")
    case None
    then show ?thesis .
  next
    case (Some p)
    then have "k2 \<in> set (keys t2)" using find_ctx_key_in[of k2 t2 "[]" "fst p" "snd p"] by simp
    then show ?thesis using a by simp
  qed
  then show "splay_int_delete fuel2 (Some tr2) k2 opts h2 = Inr (0, Some tr2, h2)"
    using a delete_absent_heap by blast
qed

theorem size_accounting_witness:
  "(\<exists>tr h n m. run_ops 6 [Insert 5 7 1, Delete 9 0, Insert 3 8 2, Delete 5 0, Insert 3 9 1] new_state
        = Inr ((Some tr, h), n, m) \<and> m \<le> n \<and> unat (nodes_count tr) = n - m)
   \<and> splay_int_insert 3 2 (Some \<lparr>root = 1, nodes_count = 1, max_nodes = 1\<rparr>) 9 0 one_node_heap
        = Inr (0, Some \<lparr>root = 1, nodes_count = 1, max_nodes = 1\<rparr>, one_node_heap)
   \<and> splay_int_delete 3 (Some two_nodes_tree) 9 0 two_nodes_heap
        = Inr (0, Some two_nodes_tree, two_nodes_heap)"
proof -
  have a: "allocs_ok 6 [Insert 5 7 1, Delete 9 0, Insert 3 8 2, Delete 5 0, Insert 3 9 1] new_state"
    by (simp add: eval_defs)
  have b: "size two_nodes_shape < 3 \<and> 9 \<notin> set (keys two_nodes_shape)"
    by (simp add: two_nodes_shape_def)
  show ?thesis
    using size_accounting[of 6 "[Insert 5 7 1, Delete 9 0, Insert 3 8 2, Delete 5 0, Insert 3 9 1]"
        "\<lparr>root = 1, nodes_count = 1, max_nodes = 1\<rparr>" 3 2 9 0 one_node_heap
        two_nodes_tree two_nodes_heap two_nodes_shape 3 9 0] a b two_nodes_holds
    by simp
qed

lemma order_flag_simps [simp]:
  "DFS_PRE_ORDER \<noteq> 0" "DFS_IN_ORDER \<noteq> 0" "DFS_POST_ORDER \<noteq> 0"
  "DFS_IN_ORDER AND DFS_PRE_ORDER = 0" "DFS_POST_ORDER AND DFS_PRE_ORDER = 0"
  "DFS_POST_ORDER AND DFS_IN_ORDER = 0"
  "0 < sint DFS_PRE_ORDER" "0 < sint DFS_IN_ORDER" "0 < sint DFS_POST_ORDER"
  "0 < sint SEARCH_DATA" "0 < sint SEARCH_KEYS" "0 < sint SEARCH_NODES"
  "BFS_LEFT_FIRST \<noteq> 0" "BFS_RIGHT_FIRST \<noteq> 0"
  "0 < sint BFS_LEFT_FIRST" "0 < sint BFS_RIGHT_FIRST"
  by (simp_all add: DFS_PRE_ORDER_def DFS_IN_ORDER_def DFS_POST_ORDER_def SEARCH_DATA_def
      SEARCH_KEYS_def SEARCH_NODES_def BFS_LEFT_FIRST_def BFS_RIGHT_FIRST_def)

lemma dfs_empty:
  "holds tr h Leaf \<Longrightarrow> splay_int_dfs fuel c (Some tr) type opts h = Inr None"
  by (simp add: holds_def splay_int_dfs_def)

text \<open>
  C1, as amended.  Take any sequence of calls of \<open>splay_int_insert\<close> and
  \<open>splay_int_delete\<close> on a tree created empty, in which every allocation
  succeeds and the keys are such that the difference of any two of them fits
  an \<open>int\<close>.  Then the calls return, the in-order depth-first search of the
  keys returns them in non-decreasing order, and around every node no key of
  the left subtree is above the node's key and no key of the right subtree is
  below it.
\<close>

theorem inorder_non_decreasing:
  assumes "allocs_ok fuel ops new_state" and "length ops < fuel"
    and "keys_fit (map op_key ops)"
  shows "\<exists>tr h t n m. run_ops fuel ops new_state = Inr ((Some tr, h), n, m)
    \<and> holds tr h t \<and> bst_le t \<and> sorted (map sint (keys t))
    \<and> splay_int_dfs fuel True (Some tr) DFS_IN_ORDER SEARCH_KEYS h
        = Inr (if t = Leaf then None else Some (IntBuf (keys t)))"
proof -
  obtain tr h t n m where r: "run_ops fuel ops new_state = Inr ((Some tr, h), n, m)"
    and I: "holds tr h t" and sz: "size t + m = n" and c: "n + m \<le> length ops"
    and so: "keys_fit (map op_key ops) \<longrightarrow> sorted_keys t"
    using run_from_new[OF assms(1,2)] by blast
  have s: "sorted_keys t" using so assms(3) by simp
  have b: "bst_le t" by (rule sorted_bst_le[OF s])
  have f: "size t < fuel" using sz c assms(2) by simp
  have d: "splay_int_dfs fuel True (Some tr) DFS_IN_ORDER SEARCH_KEYS h
        = Inr (if t = Leaf then None else Some (IntBuf (keys t)))"
  proof (cases "t = Leaf")
    case True
    then show ?thesis using dfs_empty I by simp
  next
    case False
    have "splay_int_dfs fuel True (Some tr) DFS_IN_ORDER SEARCH_KEYS h
      = Inr (case dfs_order DFS_IN_ORDER t of None \<Rightarrow> None
             | Some es \<Rightarrow> out_buffer SEARCH_KEYS es)"
      by (rule dfs_heap[OF I f _ _ False]) simp_all
    then show ?thesis using False by (simp add: dfs_order_def out_buffer_def keys_def)
  qed
  show ?thesis using r I b s d unfolding sorted_keys_def by blast
qed

theorem inorder_non_decreasing_witness:
  "\<exists>tr h t n m. run_ops 6 [Insert 5 7 1, Insert 5 8 2, Insert 3 9 3, Delete 5 0, Insert (- 4) 0 4] new_state
      = Inr ((Some tr, h), n, m)
    \<and> holds tr h t \<and> bst_le t \<and> sorted (map sint (keys t))
    \<and> splay_int_dfs 6 True (Some tr) DFS_IN_ORDER SEARCH_KEYS h
        = Inr (if t = Leaf then None else Some (IntBuf (keys t)))"
proof -
  have a: "allocs_ok 6 [Insert 5 7 1, Insert 5 8 2, Insert 3 9 3, Delete 5 0, Insert (- 4) 0 4] new_state"
    by (simp add: eval_defs)
  have b: "keys_fit (map op_key [Insert 5 7 1, Insert 5 8 2, Insert 3 9 3, Delete 5 0, Insert (- 4) 0 4])"
    by (simp add: keys_fit_def diff_fits_def)
  show ?thesis
    using inorder_non_decreasing[OF a _ b] by simp
qed

text \<open>
  The claim as it is written fails: after the key \<open>5\<close> is inserted twice,
  the splay of the second node has left the first one, with its key \<open>5\<close>, in
  the right subtree of the root, whose key is \<open>5\<close>.
\<close>

theorem equal_key_in_right_subtree:
  "run_ops 3 [Insert 5 7 1, Insert 5 8 2] new_state
     = Inr ((Some two_nodes_tree, same_keys_heap), 2, 0)
   \<and> holds two_nodes_tree same_keys_heap same_keys_shape
   \<and> same_keys_shape = Node Leaf (1, 5, 8) (Node Leaf (2, 5, 7) Leaf)
   \<and> \<not> bst_strict same_keys_shape"
  using same_keys_built same_keys_holds by (simp add: same_keys_shape_def)

lemma holds_root_key:
  assumes "holds tr h (Node L (a, k, d) R)"
  shows "\<exists>nd. h (root tr) = Some nd \<and> key nd = k"
  using assms by (simp add: holds_def)

text \<open>
  The key at the root after an insertion and after a search that splays.
  After a call of \<open>splay_int_insert\<close> on a tree that is not full, whose
  allocation succeeded, the call has returned a counter other than \<open>0\<close> and
  the key of the root is the new key.  After a call of \<open>splay_int_search\<close>
  with positive options that have the \<open>SEARCH_SPLAY\<close> bit, for a key stored
  in a tree whose keys are in order and are less than \<open>2 ^ 31\<close> away from the
  key looked for, the key of the root is that key.
\<close>

lemma root_key_after_splay:
  "(holds tr h t \<and> a \<noteq> 0 \<and> h a = None \<and> nodes_count tr \<noteq> max_nodes tr
      \<and> nodes_count tr \<noteq> - 1 \<and> size t < fuel \<longrightarrow>
     (\<exists>r tr' h' nd. splay_int_insert fuel a (Some tr) k d h = Inr (r, Some tr', h') \<and> r \<noteq> 0
        \<and> h' (root tr') = Some nd \<and> key nd = k))
   \<and> (holds tr2 h2 t2 \<and> size t2 < fuel2 \<and> 0 < sint opts \<and> opts AND SEARCH_SPLAY \<noteq> 0
       \<and> k2 \<in> set (keys t2) \<and> sorted_keys t2 \<and> list_all (\<lambda>x. diff_fits x k2) (keys t2) \<longrightarrow>
     (\<exists>r h' nd. splay_int_search fuel2 (Some tr2) k2 opts h2 = Inr (r, h')
        \<and> h' (root tr2) = Some nd \<and> key nd = k2))"
proof (intro conjI impI)
  assume A: "holds tr h t \<and> a \<noteq> 0 \<and> h a = None \<and> nodes_count tr \<noteq> max_nodes tr
      \<and> nodes_count tr \<noteq> - 1 \<and> size t < fuel"
  then have ad: "a \<notin> dom h" by (simp add: domIff)
  obtain tr' h' where r: "splay_int_insert fuel a (Some tr) k d h
        = Inr (nodes_count tr + 1, Some tr', h')"
    and I: "holds tr' h' (tree_insert a k d t)"
    using insert_holds[OF _ _ ad, of tr t fuel k d] A by blast
  obtain L x R where ti: "tree_insert a k d t = Node L (x, k, d) R"
    using tree_insert_root_form[of a k d t] by (auto simp add: root_form_def split: tree.splits)
  have nz: "nodes_count tr + 1 \<noteq> 0" using A by (metis add_eq_0_iff2 minus_equation_iff)
  show "\<exists>r tr' h' nd. splay_int_insert fuel a (Some tr) k d h = Inr (r, Some tr', h') \<and> r \<noteq> 0
        \<and> h' (root tr') = Some nd \<and> key nd = k"
    using r nz holds_root_key[OF I[unfolded ti]] by blast
next
  assume A: "holds tr2 h2 t2 \<and> size t2 < fuel2 \<and> 0 < sint opts \<and> opts AND SEARCH_SPLAY \<noteq> 0
       \<and> k2 \<in> set (keys t2) \<and> sorted_keys t2 \<and> list_all (\<lambda>x. diff_fits x k2) (keys t2)"
  then have "find_ctx k2 t2 [] \<noteq> None"
    using find_ctx_present[of t2 k2 "[]"] by (simp add: sorted_keys_def list_all_iff)
  then obtain s c where f: "find_ctx k2 t2 [] = Some (s, c)" by auto
  obtain h' L d R where ts: "tree_splay k2 t2 = Node L (rp t2, k2, d) R"
    and I: "holds tr2 h' (tree_splay k2 t2)"
    and r: "splay_int_search fuel2 (Some tr2) k2 opts h2 = Inr (search_value opts (rp t2) d, h')"
    using search_splay_holds[of tr2 h2 t2 fuel2 opts k2 s c] A f by blast
  show "\<exists>r h' nd. splay_int_search fuel2 (Some tr2) k2 opts h2 = Inr (r, h')
        \<and> h' (root tr2) = Some nd \<and> key nd = k2"
    using r holds_root_key[OF I[unfolded ts]] by blast
qed

lemma search_total:
  assumes I: "holds tr h t" and fuel: "size t < fuel" and o: "opts AND SEARCH_SPLAY = 0"
  shows "\<exists>r. splay_int_search fuel (Some tr) k opts h = Inr (r, h)"
proof (cases "0 < sint opts")
  case True
  show ?thesis using search_plain_heap[OF I fuel True o, of k] by blast
next
  case False
  then show ?thesis by (simp add: splay_int_search_def)
qed

text \<open>
  C8.  A call of \<open>splay_int_search\<close> whose options do not have the
  \<open>SEARCH_SPLAY\<close> bit writes nothing: whenever it returns, the store it
  leaves is the store it was given, every field of every node included (the
  function has no assignment to a field of the tree structure, so the model
  does not return one).  On a well-formed tree it does return, whether the key
  is found or not.  So two such searches give the same two results in either
  order, each the result of the search made alone.
\<close>

theorem search_read_only:
  "opts AND SEARCH_SPLAY = 0 \<longrightarrow>
     (\<forall>r h'. splay_int_search fuel tree k opts h = Inr (r, h') \<longrightarrow> h' = h)
     \<and> (\<forall>tr t. tree = Some tr \<and> holds tr h t \<and> size t < fuel \<longrightarrow>
          (\<exists>r. splay_int_search fuel tree k opts h = Inr (r, h)))
     \<and> (\<forall>tr t k' opts'. tree = Some tr \<and> holds tr h t \<and> size t < fuel
            \<and> opts' AND SEARCH_SPLAY = 0 \<longrightarrow>
          bnd (splay_int_search fuel tree k opts h) (\<lambda>(r, h1).
            bnd (splay_int_search fuel tree k' opts' h1) (\<lambda>(r', h2). Inr (r, r', h2)))
          = bnd (splay_int_search fuel tree k' opts' h) (\<lambda>(r', h1).
              bnd (splay_int_search fuel tree k opts h1) (\<lambda>(r, h2). Inr (r, r', h2))))"
proof (intro impI conjI allI)
  fix r h'
  assume "opts AND SEARCH_SPLAY = 0" "splay_int_search fuel tree k opts h = Inr (r, h')"
  then show "h' = h" by (rule search_frame)
next
  fix tr t
  assume o: "opts AND SEARCH_SPLAY = 0"
    and A: "tree = Some tr \<and> holds tr h t \<and> size t < fuel"
  show "\<exists>r. splay_int_search fuel tree k opts h = Inr (r, h)"
    using search_total[of tr h t fuel opts k] o A by simp
next
  fix tr t k' opts'
  assume o: "opts AND SEARCH_SPLAY = 0"
    and A: "tree = Some tr \<and> holds tr h t \<and> size t < fuel \<and> opts' AND SEARCH_SPLAY = 0"
  obtain r where r: "splay_int_search fuel tree k opts h = Inr (r, h)"
    using search_total[of tr h t fuel opts k] o A by auto
  obtain r' where r': "splay_int_search fuel tree k' opts' h = Inr (r', h)"
    using search_total[of tr h t fuel opts' k'] A by auto
  show "bnd (splay_int_search fuel tree k opts h) (\<lambda>(r, h1).
            bnd (splay_int_search fuel tree k' opts' h1) (\<lambda>(r', h2). Inr (r, r', h2)))
          = bnd (splay_int_search fuel tree k' opts' h) (\<lambda>(r', h1).
              bnd (splay_int_search fuel tree k opts h1) (\<lambda>(r, h2). Inr (r, r', h2)))"
    using r r' by (simp add: bnd_def)
qed

theorem search_read_only_witness:
  "(\<exists>r. splay_int_search 3 (Some two_nodes_tree) 1 SEARCH_DATA two_nodes_heap
         = Inr (r, two_nodes_heap))
   \<and> bnd (splay_int_search 3 (Some two_nodes_tree) 1 SEARCH_DATA two_nodes_heap) (\<lambda>(r, h1).
         bnd (splay_int_search 3 (Some two_nodes_tree) 4 SEARCH_NODES h1) (\<lambda>(r', h2). Inr (r, r', h2)))
       = bnd (splay_int_search 3 (Some two_nodes_tree) 4 SEARCH_NODES two_nodes_heap) (\<lambda>(r', h1).
           bnd (splay_int_search 3 (Some two_nodes_tree) 1 SEARCH_DATA h1) (\<lambda>(r, h2). Inr (r, r', h2)))"
proof -
  have a: "SEARCH_DATA AND SEARCH_SPLAY = 0" "SEARCH_NODES AND SEARCH_SPLAY = 0"
    "size two_nodes_shape < 3"
    by (simp_all add: SEARCH_DATA_def SEARCH_NODES_def SEARCH_SPLAY_def two_nodes_shape_def)
  show ?thesis
    using search_read_only[of SEARCH_DATA 3 "Some two_nodes_tree" 1 two_nodes_heap]
      a two_nodes_holds
    by blast
qed

lemma bfs_empty:
  "holds tr h Leaf \<Longrightarrow> splay_int_bfs c r (Some tr) type opts h = Inr None"
  by (simp add: holds_def splay_int_bfs_def)

lemma single_mode:
  assumes "opts \<in> {SEARCH_DATA, SEARCH_KEYS, SEARCH_NODES}"
  shows "0 < sint opts"
    and "opts AND SEARCH_KEYS \<noteq> 0 \<or> opts AND SEARCH_DATA \<noteq> 0 \<or> opts AND SEARCH_NODES \<noteq> 0"
    and "\<not> (opts AND SEARCH_DATA \<noteq> 0 \<and> opts AND SEARCH_KEYS \<noteq> 0)"
  using assms by auto

lemma dfs_order_single:
  assumes "type \<in> {DFS_PRE_ORDER, DFS_IN_ORDER, DFS_POST_ORDER}"
  shows "0 < sint type" and "\<exists>es. dfs_order type t = Some es \<and> mset es = mset (inorder t)"
  using assms by (auto simp add: dfs_order_def mset_orders)

text \<open>
  C7.  On a well-formed tree that is not empty, when the allocations of the
  result succeed, each depth-first search (with one of the three orders) and
  each breadth-first search (with one of the two directions), with one of the
  three modes, returns an array made from a list \<open>es\<close> of the entries of the
  tree: \<open>es\<close> has as many elements as the tree has nodes, and it is the
  entries of the tree as a multiset, so its keys are the keys of the tree with
  their repetitions.  With a \<open>NULL\<close> handle and with an empty tree the result
  is \<open>NULL\<close>.
\<close>

theorem traversals_complete:
  "(holds tr h t \<and> t \<noteq> Leaf \<and> size t < fuel
      \<and> type \<in> {DFS_PRE_ORDER, DFS_IN_ORDER, DFS_POST_ORDER}
      \<and> opts \<in> {SEARCH_DATA, SEARCH_KEYS, SEARCH_NODES} \<longrightarrow>
     (\<exists>es. splay_int_dfs fuel True (Some tr) type opts h = Inr (out_buffer opts es)
        \<and> length es = unat (nodes_count tr) \<and> mset es = mset (inorder t)
        \<and> mset (map (\<lambda>e. fst (snd e)) es) = mset (keys t)))
   \<and> (holds tr h t \<and> t \<noteq> Leaf
      \<and> dir \<in> {BFS_LEFT_FIRST, BFS_RIGHT_FIRST}
      \<and> opts \<in> {SEARCH_DATA, SEARCH_KEYS, SEARCH_NODES} \<longrightarrow>
     (\<exists>es. splay_int_bfs True True (Some tr) dir opts h = Inr (out_buffer opts es)
        \<and> length es = unat (nodes_count tr) \<and> mset es = mset (inorder t)
        \<and> mset (map (\<lambda>e. fst (snd e)) es) = mset (keys t)))
   \<and> splay_int_dfs fuel1 c None type1 opts1 h1 = Inr None
   \<and> splay_int_bfs c r None type1 opts1 h1 = Inr None
   \<and> (holds tr2 h2 Leaf \<longrightarrow>
        splay_int_dfs fuel1 c (Some tr2) type1 opts1 h2 = Inr None
        \<and> splay_int_bfs c r (Some tr2) type1 opts1 h2 = Inr None)"
proof (intro conjI impI)
  assume A: "holds tr h t \<and> t \<noteq> Leaf \<and> size t < fuel
      \<and> type \<in> {DFS_PRE_ORDER, DFS_IN_ORDER, DFS_POST_ORDER}
      \<and> opts \<in> {SEARCH_DATA, SEARCH_KEYS, SEARCH_NODES}"
  then have I: "holds tr h t" and tn: "t \<noteq> Leaf" and f: "size t < fuel"
    and ty: "type \<in> {DFS_PRE_ORDER, DFS_IN_ORDER, DFS_POST_ORDER}"
    and op: "opts \<in> {SEARCH_DATA, SEARCH_KEYS, SEARCH_NODES}" by simp_all
  obtain es where es: "dfs_order type t = Some es" and ms: "mset es = mset (inorder t)"
    using dfs_order_single(2)[OF ty] by blast
  have run: "splay_int_dfs fuel True (Some tr) type opts h = Inr (out_buffer opts es)"
    using dfs_heap[OF I f dfs_order_single(1)[OF ty] single_mode(1)[OF op] tn] es by simp
  have le: "length es = unat (nodes_count tr)"
    using mset_eq_length[OF ms] I by (simp add: holds_def)
  have "mset (map (\<lambda>e. fst (snd e)) es) = mset (keys t)"
    using ms by (simp add: keys_def)
  then show "\<exists>es. splay_int_dfs fuel True (Some tr) type opts h = Inr (out_buffer opts es)
        \<and> length es = unat (nodes_count tr) \<and> mset es = mset (inorder t)
        \<and> mset (map (\<lambda>e. fst (snd e)) es) = mset (keys t)"
    using run le ms by blast
next
  assume A: "holds tr h t \<and> t \<noteq> Leaf
      \<and> dir \<in> {BFS_LEFT_FIRST, BFS_RIGHT_FIRST}
      \<and> opts \<in> {SEARCH_DATA, SEARCH_KEYS, SEARCH_NODES}"
  then have I: "holds tr h t" and tn: "t \<noteq> Leaf"
    and dr: "dir \<in> {BFS_LEFT_FIRST, BFS_RIGHT_FIRST}"
    and op: "opts \<in> {SEARCH_DATA, SEARCH_KEYS, SEARCH_NODES}" by simp_all
  have d0: "0 < sint dir" using dr by auto
  have d1: "dir AND BFS_LEFT_FIRST \<noteq> 0 \<or> dir AND BFS_RIGHT_FIRST \<noteq> 0" using dr by auto
  obtain es where ms: "mset es = mset (inorder t)"
    and run: "splay_int_bfs True True (Some tr) dir opts h = Inr (out_buffer opts es)"
    using bfs_heap[OF I tn d0 single_mode(1)[OF op] d1 single_mode(2)[OF op] single_mode(3)[OF op]]
    by blast
  have le: "length es = unat (nodes_count tr)"
    using mset_eq_length[OF ms] I by (simp add: holds_def)
  have "mset (map (\<lambda>e. fst (snd e)) es) = mset (keys t)"
    using ms by (simp add: keys_def)
  then show "\<exists>es. splay_int_bfs True True (Some tr) dir opts h = Inr (out_buffer opts es)
        \<and> length es = unat (nodes_count tr) \<and> mset es = mset (inorder t)
        \<and> mset (map (\<lambda>e. fst (snd e)) es) = mset (keys t)"
    using run le ms by blast
next
  show "splay_int_dfs fuel1 c None type1 opts1 h1 = Inr None"
    by (simp add: splay_int_dfs_def)
next
  show "splay_int_bfs c r None type1 opts1 h1 = Inr None"
    by (simp add: splay_int_bfs_def)
next
  assume "holds tr2 h2 Leaf"
  then show "splay_int_dfs fuel1 c (Some tr2) type1 opts1 h2 = Inr None" by (rule dfs_empty)
next
  assume "holds tr2 h2 Leaf"
  then show "splay_int_bfs c r (Some tr2) type1 opts1 h2 = Inr None" by (rule bfs_empty)
qed

theorem traversals_complete_witness:
  "(\<exists>es. splay_int_dfs 3 True (Some two_nodes_tree) DFS_POST_ORDER SEARCH_KEYS two_nodes_heap
        = Inr (out_buffer SEARCH_KEYS es)
      \<and> length es = unat (nodes_count two_nodes_tree) \<and> mset es = mset (inorder two_nodes_shape)
      \<and> mset (map (\<lambda>e. fst (snd e)) es) = mset (keys two_nodes_shape))
   \<and> (\<exists>es. splay_int_bfs True True (Some two_nodes_tree) BFS_RIGHT_FIRST SEARCH_KEYS two_nodes_heap
        = Inr (out_buffer SEARCH_KEYS es)
      \<and> length es = unat (nodes_count two_nodes_tree) \<and> mset es = mset (inorder two_nodes_shape)
      \<and> mset (map (\<lambda>e. fst (snd e)) es) = mset (keys two_nodes_shape))
   \<and> splay_int_dfs 3 True (create_splay_int_tree True) DFS_POST_ORDER SEARCH_KEYS Map.empty = Inr None
   \<and> splay_int_bfs True True (create_splay_int_tree True) DFS_POST_ORDER SEARCH_KEYS Map.empty = Inr None"
proof -
  have a: "two_nodes_shape \<noteq> Leaf \<and> size two_nodes_shape < 3"
    by (simp add: two_nodes_shape_def)
  have b: "create_splay_int_tree True = Some \<lparr>root = 0, nodes_count = 0, max_nodes = - 1\<rparr>"
    by (simp add: create_splay_int_tree_def)
  show ?thesis
    using traversals_complete[of two_nodes_tree two_nodes_heap two_nodes_shape 3 DFS_POST_ORDER
        SEARCH_KEYS BFS_RIGHT_FIRST 3 True DFS_POST_ORDER SEARCH_KEYS Map.empty True
        "\<lparr>root = 0, nodes_count = 0, max_nodes = - 1\<rparr>" Map.empty]
      a b two_nodes_holds new_state_holds
    by simp
qed

section \<open>Options with several bits\<close>

lemma bfs_visit_served: "bfs_visit (served_mode opts) = bfs_visit opts"
  by (intro ext) (simp add: bfs_visit_def served_mode_def)

lemma bfs_loop_served:
  "bfs_loop m type (served_mode opts) h i st = bfs_loop m type opts h i st"
proof (induction m arbitrary: i st)
  case 0
  then show ?case by simp
next
  case (Suc m)
  have "bfs_step type (served_mode opts) h i st = bfs_step type opts h i st"
    by (simp add: bfs_step_def bfs_visit_served)
  moreover have "bfs_loop m type (served_mode opts) h (i + 1) = bfs_loop m type opts h (i + 1)"
    by (rule ext) (rule Suc)
  ultimately show ?case by simp
qed

lemma served_mode_cases:
  "served_mode opts = 0 \<and> opts AND SEARCH_DATA = 0 \<and> opts AND SEARCH_KEYS = 0
      \<and> opts AND SEARCH_NODES = 0
   \<or> served_mode opts = SEARCH_DATA \<and> opts AND SEARCH_DATA \<noteq> 0
   \<or> served_mode opts = SEARCH_KEYS \<and> opts AND SEARCH_DATA = 0 \<and> opts AND SEARCH_KEYS \<noteq> 0
   \<or> served_mode opts = SEARCH_NODES \<and> opts AND SEARCH_DATA = 0 \<and> opts AND SEARCH_KEYS = 0
      \<and> opts AND SEARCH_NODES \<noteq> 0"
  by (simp add: served_mode_def)

lemma mode_sign:
  "\<not> sint SEARCH_DATA \<le> 0" "\<not> sint SEARCH_KEYS \<le> 0" "\<not> sint SEARCH_NODES \<le> 0"
  by (simp_all add: SEARCH_DATA_def SEARCH_KEYS_def SEARCH_NODES_def)

lemma bfs_served:
  assumes o: "0 < sint opts" and one: "\<not> (opts AND SEARCH_DATA \<noteq> 0 \<and> opts AND SEARCH_KEYS \<noteq> 0)"
  shows "splay_int_bfs c r tree type opts h = splay_int_bfs c r tree type (served_mode opts) h"
proof (cases "served_mode opts = 0")
  case True
  then have "opts AND SEARCH_DATA = 0" "opts AND SEARCH_KEYS = 0" "opts AND SEARCH_NODES = 0"
    by (simp_all add: served_mode_def split: if_splits)
  then show ?thesis using True by (simp add: splay_int_bfs_def split: option.splits)
next
  case False
  have p: "\<not> sint opts \<le> 0" using o by simp
  have s: "\<not> sint (served_mode opts) \<le> 0"
    using False by (simp add: served_mode_def mode_sign split: if_splits)
  have k: "(served_mode opts AND SEARCH_KEYS \<noteq> 0) = (opts AND SEARCH_KEYS \<noteq> 0)"
    using one by (auto simp add: served_mode_def)
  have m: "(opts AND SEARCH_KEYS \<noteq> 0 \<or> opts AND SEARCH_DATA \<noteq> 0 \<or> opts AND SEARCH_NODES \<noteq> 0)
      = True"
    using False by (auto simp add: served_mode_def)
  have m': "(opts AND SEARCH_KEYS \<noteq> 0 \<or> served_mode opts AND SEARCH_DATA \<noteq> 0
      \<or> served_mode opts AND SEARCH_NODES \<noteq> 0) = True"
    using False by (auto simp add: served_mode_def)
  show ?thesis
    unfolding splay_int_bfs_def bfs_loop_served k m m' by (cases tree) (simp_all add: p s)
qed

lemma dfs_run_served:
  "dfs_run fuel c t (served_order type) m buf h = dfs_run fuel c t type m buf h"
  by (simp add: dfs_run_def served_order_def)

lemma dfs_served:
  assumes "0 < sint type" and "0 < sint opts"
  shows "splay_int_dfs fuel c tree type opts h
     = splay_int_dfs fuel c tree (served_order type) (served_mode opts) h"
proof (cases "served_order type = 0")
  case True
  then have "type AND DFS_PRE_ORDER = 0" "type AND DFS_IN_ORDER = 0" "type AND DFS_POST_ORDER = 0"
    by (simp_all add: served_order_def split: if_splits)
  then show ?thesis using True assms
    by (simp add: splay_int_dfs_def dfs_run_def split: option.splits)
next
  case False
  then have "0 < sint (served_order type)"
    by (simp add: served_order_def split: if_splits)
  then show ?thesis using served_mode_cases[of opts] assms mode_sign
    by (auto simp add: splay_int_dfs_def dfs_run_served split: option.splits)
qed

lemma search_served_eq:
  assumes "0 < sint opts" and "opts AND SEARCH_DATA \<noteq> 0 \<or> opts AND SEARCH_NODES \<noteq> 0"
  shows "splay_int_search fuel tree k opts h = splay_int_search fuel tree k (search_served opts) h"
proof -
  have c: "(search_served opts AND SEARCH_SPLAY \<noteq> 0) = (opts AND SEARCH_SPLAY \<noteq> 0)"
    "(search_served opts AND SEARCH_DATA \<noteq> 0) = (opts AND SEARCH_DATA \<noteq> 0)"
    "opts AND SEARCH_DATA = 0 \<Longrightarrow> search_served opts AND SEARCH_NODES \<noteq> 0"
    "0 < sint (search_served opts)"
    using assms(2)
    by (auto simp add: search_served_def SEARCH_SPLAY_def SEARCH_DATA_def SEARCH_NODES_def)
  show ?thesis using assms c
    by (auto simp add: splay_int_search_def bnd_def split: option.splits sum.splits)
qed

lemmas dfs_eval_defs = splay_int_dfs_def dfs_run_def dfs_visit_def write_ptr_def write_key_def
  splay_int_bfs_def bfs_step_def bfs_visit_def bfs_sons_def enqueue_def write_slot_def
  read_slot_def write_int_def read_int_def

lemma replicate_2: "replicate 2 x = [x, x]"
  by (simp add: numeral_2_eq_2)

text \<open>
  C6, as amended.  No call tests that a single mode bit or a single order
  bit is set.  With several of them, \<open>splay_int_search\<close> (when
  \<open>SEARCH_DATA\<close> or \<open>SEARCH_NODES\<close> is among them) and \<open>splay_int_dfs\<close>
  return what they return for the one mode and the one order that come first
  in the order of their tests: \<open>SEARCH_DATA\<close>, \<open>SEARCH_KEYS\<close>,
  \<open>SEARCH_NODES\<close> (\<open>splay_int_search\<close> has no test for \<open>SEARCH_KEYS\<close>), and
  \<open>DFS_PRE_ORDER\<close>, \<open>DFS_IN_ORDER\<close>, \<open>DFS_POST_ORDER\<close>.  So does
  \<open>splay_int_bfs\<close> for its mode, unless both \<open>SEARCH_DATA\<close> and
  \<open>SEARCH_KEYS\<close> are set.
\<close>

theorem first_mode_served:
  "(0 < sint opts \<and> (opts AND SEARCH_DATA \<noteq> 0 \<or> opts AND SEARCH_NODES \<noteq> 0) \<longrightarrow>
      splay_int_search fuel tree k opts h = splay_int_search fuel tree k (search_served opts) h)
   \<and> (0 < sint type \<and> 0 < sint opts \<longrightarrow>
      splay_int_dfs fuel c tree type opts h
        = splay_int_dfs fuel c tree (served_order type) (served_mode opts) h)
   \<and> (0 < sint opts \<and> \<not> (opts AND SEARCH_DATA \<noteq> 0 \<and> opts AND SEARCH_KEYS \<noteq> 0) \<longrightarrow>
      splay_int_bfs c r tree dir opts h = splay_int_bfs c r tree dir (served_mode opts) h)"
  using search_served_eq[of opts fuel tree k h] dfs_served[of type opts fuel c tree h]
    bfs_served[of opts c r tree dir h]
  by blast

theorem first_mode_served_witness:
  "search_served 20 = SEARCH_DATA \<and> served_order 96 = DFS_PRE_ORDER \<and> served_mode 24 = SEARCH_KEYS
   \<and> served_mode 20 = SEARCH_DATA
   \<and> splay_int_search 3 (Some two_nodes_tree) 5 20 two_nodes_heap
       = splay_int_search 3 (Some two_nodes_tree) 5 (search_served 20) two_nodes_heap
   \<and> splay_int_dfs 3 True (Some two_nodes_tree) 96 24 two_nodes_heap
       = splay_int_dfs 3 True (Some two_nodes_tree) (served_order 96) (served_mode 24) two_nodes_heap
   \<and> splay_int_bfs True True (Some two_nodes_tree) BFS_LEFT_FIRST 24 two_nodes_heap
       = splay_int_bfs True True (Some two_nodes_tree) BFS_LEFT_FIRST (served_mode 24) two_nodes_heap"
proof -
  have a: "0 < sint (20 :: 32 word)" "(20 :: 32 word) AND SEARCH_DATA \<noteq> 0"
    "0 < sint (96 :: 32 word)" "0 < sint (24 :: 32 word)"
    "\<not> ((24 :: 32 word) AND SEARCH_DATA \<noteq> 0 \<and> (24 :: 32 word) AND SEARCH_KEYS \<noteq> 0)"
    by (simp_all add: SEARCH_DATA_def SEARCH_KEYS_def)
  have b: "search_served 20 = SEARCH_DATA" "served_order 96 = DFS_PRE_ORDER"
    "served_mode 24 = SEARCH_KEYS" "served_mode 20 = SEARCH_DATA"
    by (simp_all add: search_served_def served_order_def served_mode_def SEARCH_DATA_def
        SEARCH_KEYS_def SEARCH_NODES_def SEARCH_SPLAY_def DFS_PRE_ORDER_def)
  have c: "splay_int_search 3 (Some two_nodes_tree) 5 20 two_nodes_heap
       = splay_int_search 3 (Some two_nodes_tree) 5 (search_served 20) two_nodes_heap"
    using first_mode_served[of 20 3 "Some two_nodes_tree" 5 two_nodes_heap] a by blast
  have d: "splay_int_dfs 3 True (Some two_nodes_tree) 96 24 two_nodes_heap
       = splay_int_dfs 3 True (Some two_nodes_tree) (served_order 96) (served_mode 24) two_nodes_heap
     \<and> splay_int_bfs True True (Some two_nodes_tree) BFS_LEFT_FIRST 24 two_nodes_heap
       = splay_int_bfs True True (Some two_nodes_tree) BFS_LEFT_FIRST (served_mode 24) two_nodes_heap"
    using first_mode_served[of 24 3 "Some two_nodes_tree" 5 two_nodes_heap 96 True True BFS_LEFT_FIRST]
      a by blast
  show ?thesis using b c d by blast
qed

text \<open>
  The claim as it is written fails.  With \<open>SEARCH_DATA\<close> and
  \<open>SEARCH_NODES\<close> together, \<open>splay_int_search\<close> returns the payload \<open>7\<close> of
  the key \<open>5\<close>; with two order bits and two mode bits, \<open>splay_int_dfs\<close>
  returns the keys in pre-order.  Neither returns \<open>NULL\<close>.
\<close>

theorem several_modes_served:
  "splay_int_search 3 (Some two_nodes_tree) 5 (SEARCH_DATA OR SEARCH_NODES) two_nodes_heap
     = Inr (7, two_nodes_heap)
   \<and> splay_int_dfs 3 True (Some two_nodes_tree) (DFS_PRE_ORDER OR DFS_IN_ORDER)
        (SEARCH_KEYS OR SEARCH_NODES) two_nodes_heap
     = Inr (Some (IntBuf [5, 1]))"
  by (simp add: eval_defs dfs_eval_defs SEARCH_DATA_def SEARCH_NODES_def SEARCH_KEYS_def
      SEARCH_SPLAY_def DFS_PRE_ORDER_def DFS_IN_ORDER_def two_nodes_tree_def two_nodes_heap_def
      replicate_2)

section \<open>A failed allocation in the insertion\<close>

lemma splay_loop_null: "top_node \<noteq> 0 \<Longrightarrow> splay_loop n top_node 0 h = Inl OutOfFuel"
  by (induction n) (simp_all add: spli_splay_def bnd_def)

text \<open>
  C5.  \<open>splay_int_insert\<close> does not test what \<open>_spli_create_node\<close> returns.
  When the allocation fails (\<open>a = 0\<close>) on the tree with the single key \<open>1\<close>,
  the loop that splays the new node runs on \<open>NULL\<close>, which never becomes the
  root: whatever the fuel, the model runs out of it, so the call does not
  return.  On the tree just created the call returns \<open>1\<close> and leaves a tree
  whose counter is \<open>1\<close> and whose root is \<open>NULL\<close>.  In neither case does it
  return \<open>0\<close> with the tree as it was.
\<close>

theorem insert_after_failed_allocation:
  "splay_int_insert fuel 0 (Some one_node_tree) 2 v one_node_heap = Inl OutOfFuel
   \<and> splay_int_insert fuel 0 (create_splay_int_tree True) k v Map.empty
       = Inr (1, Some \<lparr>root = 0, nodes_count = 1, max_nodes = - 1\<rparr>, Map.empty)"
proof
  show "splay_int_insert fuel 0 (Some one_node_tree) 2 v one_node_heap = Inl OutOfFuel"
  proof (cases fuel)
    case 0
    then show ?thesis
      by (simp add: splay_int_insert_def spli_create_node_def one_node_tree_def bnd_def)
  next
    case (Suc n)
    show ?thesis
    proof (cases n)
      case 0
      then show ?thesis using Suc
        by (simp add: splay_int_insert_def spli_create_node_def one_node_tree_def
            one_node_heap_def bnd_def deref_def)
    next
      case (Suc m)
      then show ?thesis using \<open>fuel = Suc n\<close> splay_loop_null[of 1 fuel]
        by (simp add: splay_int_insert_def spli_create_node_def one_node_tree_def
            one_node_heap_def bnd_def deref_def spli_insert_right_subtree_def
            set_right_son_def)
    qed
  qed
next
  show "splay_int_insert fuel 0 (create_splay_int_tree True) k v Map.empty
       = Inr (1, Some \<lparr>root = 0, nodes_count = 1, max_nodes = - 1\<rparr>, Map.empty)"
    by (simp add: splay_int_insert_def spli_create_node_def create_splay_int_tree_def)
qed

section \<open>Keys that are far apart\<close>

text \<open>
  The searches compare two keys by the sign of their difference, computed in
  an \<open>int\<close>.  The model takes the difference modulo \<open>2 ^ 32\<close>, as the
  subtraction of the machine does.  For keys in order that are less than
  \<open>2 ^ 31\<close> away from the key looked for, the three user functions find every
  key of the tree.
\<close>

lemma find_in_order:
  assumes "sorted_keys t" and "list_all (\<lambda>x. diff_fits x k) (keys t)" and "k \<in> set (keys t)"
  shows "\<exists>s c. find_ctx k t [] = Some (s, c)"
  using find_ctx_present[of t k "[]"] assms by (auto simp add: sorted_keys_def list_all_iff)

lemma search_present_in_order:
  assumes I: "holds tr h t" and fuel: "size t < fuel" and s: "sorted_keys t"
    and f: "list_all (\<lambda>x. diff_fits x k) (keys t)" and k: "k \<in> set (keys t)"
  shows "\<exists>a d. (a, k, d) \<in> set (inorder t)
    \<and> splay_int_search fuel (Some tr) k SEARCH_DATA h = Inr (d, h)"
proof -
  obtain s c where fc: "find_ctx k t [] = Some (s, c)" using find_in_order[OF s f k] by blast
  obtain l a d r where sn: "s = Node l (a, k, d) r" and pl: "plug s c = t"
    using find_ctx_plug[OF fc] by auto
  have "(a, k, d) \<in> set (inorder (plug s c))" unfolding sn by (simp add: inorder_plug)
  moreover have "splay_int_search fuel (Some tr) k SEARCH_DATA h = Inr (d, h)"
    using search_plain_heap[OF I fuel, of SEARCH_DATA k] fc sn
    by (simp add: search_value_def SEARCH_DATA_def SEARCH_SPLAY_def)
  ultimately show ?thesis using pl by blast
qed

lemma search_absent:
  assumes I: "holds tr h t" and fuel: "size t < fuel" and k: "k \<notin> set (keys t)"
  shows "splay_int_search fuel (Some tr) k SEARCH_DATA h = Inr (0, h)"
proof -
  have "find_ctx k t [] = None"
  proof (cases "find_ctx k t []")
    case None
    then show ?thesis .
  next
    case (Some p)
    then have "k \<in> set (keys t)" using find_ctx_key_in[of k t "[]" "fst p" "snd p"] by simp
    then show ?thesis using k by simp
  qed
  then show ?thesis using search_plain_heap[OF I fuel, of SEARCH_DATA k]
    by (simp add: SEARCH_DATA_def SEARCH_SPLAY_def)
qed

lemma delete_present_in_order:
  assumes I: "holds tr h t" and o: "\<not> sint opts < 0" and fuel: "size t < fuel"
    and s: "sorted_keys t" and f: "list_all (\<lambda>x. diff_fits x k) (keys t)"
    and k: "k \<in> set (keys t)"
  shows "\<exists>tr' h' L d R. splay_int_delete fuel (Some tr) k opts h = Inr (1, Some tr', h')
    \<and> tree_splay k t = Node L (rp t, k, d) R \<and> holds tr' h' (tree_join L R)
    \<and> mset (keys t) = add_mset k (mset (keys (tree_join L R)))
    \<and> nodes_count tr' = nodes_count tr - 1"
proof -
  obtain s c where fc: "find_ctx k t [] = Some (s, c)" using find_in_order[OF s f k] by blast
  obtain tr' h' where r: "splay_int_delete fuel (Some tr) k opts h = Inr (1, Some tr', h')"
    and I': "holds tr' h' (tree_delete k t)" and n: "nodes_count tr' = nodes_count tr - 1"
    using delete_found_heap[OF I o fuel fc] by blast
  obtain L d R where ts: "tree_splay k t = Node L (rp t, k, d) R"
    and td: "tree_delete k t = tree_join L R"
    using tree_delete_found[OF fc] by blast
  show ?thesis using r I' n ts td tree_delete_keys[OF fc] by auto
qed

lemma search_splay_only:
  assumes I: "holds tr h t" and fuel: "size t < fuel" and fc: "find_ctx k t [] = Some (s, c)"
  shows "\<exists>h' L d R. splay_int_search fuel (Some tr) k SEARCH_SPLAY h = Inr (0, h')
    \<and> holds tr h' (Node L (rp t, k, d) R) \<and> tree_splay k t = Node L (rp t, k, d) R"
proof -
  have o: "0 < sint SEARCH_SPLAY" "SEARCH_SPLAY AND SEARCH_SPLAY \<noteq> 0"
    by (simp_all add: SEARCH_SPLAY_def)
  obtain h' L d R where ts: "tree_splay k t = Node L (rp t, k, d) R"
    and I': "holds tr h' (tree_splay k t)"
    and r: "splay_int_search fuel (Some tr) k SEARCH_SPLAY h
        = Inr (search_value SEARCH_SPLAY (rp t) d, h')"
    using search_splay_holds[OF I fuel o fc] by blast
  have "search_value SEARCH_SPLAY (rp t) d = 0"
    by (simp add: search_value_def SEARCH_SPLAY_def SEARCH_DATA_def SEARCH_NODES_def)
  then show ?thesis using r I' ts by auto
qed

text \<open>
  C2.  The tree holds the keys \<open>-1\<close> and \<open>INT_MAX\<close>, inserted in this
  order, so \<open>INT_MAX\<close> is at the root and \<open>-1\<close> is its left son.  The
  options \<open>SEARCH_SPLAY | SEARCH_DATA\<close> are positive and have the
  \<open>SEARCH_SPLAY\<close> bit.  \<open>INT_MAX - (-1)\<close> wraps around to \<open>INT_MIN\<close>, so
  the descent for \<open>-1\<close> leaves the root to the right and finds nothing: the
  search for the key \<open>-1\<close>, which is in the tree, returns \<open>NULL\<close> before
  the loop that splays, the store is as it was, and the key of the root still
  is \<open>INT_MAX\<close>, not \<open>-1\<close>.
\<close>

theorem splay_search_leaves_root_key:
  "run_ops 3 [Insert (- 1) 7 1, Insert 2147483647 8 2] new_state
     = Inr ((Some two_nodes_tree, far_keys_heap), 2, 0)
   \<and> holds two_nodes_tree far_keys_heap far_keys_shape
   \<and> keys far_keys_shape = [- 1, 2147483647]
   \<and> 0 < sint (SEARCH_SPLAY OR SEARCH_DATA)
   \<and> (SEARCH_SPLAY OR SEARCH_DATA) AND SEARCH_SPLAY \<noteq> 0
   \<and> splay_int_search 3 (Some two_nodes_tree) (- 1) (SEARCH_SPLAY OR SEARCH_DATA) far_keys_heap
       = Inr (0, far_keys_heap)
   \<and> map_option key (far_keys_heap (root two_nodes_tree)) = Some 2147483647"
proof -
  have "splay_int_search 3 (Some two_nodes_tree) (- 1) (SEARCH_SPLAY OR SEARCH_DATA) far_keys_heap
       = Inr (0, far_keys_heap)"
    by (simp add: eval_defs two_nodes_tree_def far_keys_heap_def SEARCH_SPLAY_def SEARCH_DATA_def)
  moreover have "map_option key (far_keys_heap (root two_nodes_tree)) = Some 2147483647"
    by (simp add: two_nodes_tree_def far_keys_heap_def)
  moreover have "0 < sint (SEARCH_SPLAY OR SEARCH_DATA)"
    "(SEARCH_SPLAY OR SEARCH_DATA) AND SEARCH_SPLAY \<noteq> 0"
    by (simp_all add: SEARCH_SPLAY_def SEARCH_DATA_def)
  ultimately show ?thesis
    using far_keys_built far_keys_holds by (simp add: far_keys_shape_def)
qed

text \<open>
  C3.  The tree holds the keys \<open>-1\<close> and \<open>INT_MAX\<close>, inserted in this
  order.  \<open>INT_MAX - (-1)\<close> wraps around to \<open>INT_MIN\<close>, so the descent for
  \<open>-1\<close> leaves the root to the right and finds nothing: the deletion of the
  key \<open>-1\<close>, which is in the tree, returns \<open>0\<close> and changes nothing.
\<close>

theorem delete_misses_far_key:
  "run_ops 3 [Insert (- 1) 7 1, Insert 2147483647 8 2] new_state
     = Inr ((Some two_nodes_tree, far_keys_heap), 2, 0)
   \<and> holds two_nodes_tree far_keys_heap far_keys_shape
   \<and> keys far_keys_shape = [- 1, 2147483647]
   \<and> splay_int_delete 3 (Some two_nodes_tree) (- 1) 0 far_keys_heap
       = Inr (0, Some two_nodes_tree, far_keys_heap)"
proof -
  have "splay_int_delete 3 (Some two_nodes_tree) (- 1) 0 far_keys_heap
       = Inr (0, Some two_nodes_tree, far_keys_heap)"
    by (simp add: eval_defs two_nodes_tree_def far_keys_heap_def)
  then show ?thesis using far_keys_built far_keys_holds by (simp add: far_keys_shape_def)
qed

text \<open>
  C9.  On the same tree the search for the key \<open>-1\<close> with \<open>SEARCH_DATA\<close>
  returns \<open>NULL\<close>, not the payload \<open>7\<close> stored with it.
\<close>

theorem search_misses_far_key:
  "holds two_nodes_tree far_keys_heap far_keys_shape
   \<and> inorder far_keys_shape = [(2, - 1, 7), (1, 2147483647, 8)]
   \<and> sint ((2147483647 :: 32 word) - (- 1)) = - 2147483648
   \<and> splay_int_search 3 (Some two_nodes_tree) (- 1) SEARCH_DATA far_keys_heap
       = Inr (0, far_keys_heap)"
proof -
  have "splay_int_search 3 (Some two_nodes_tree) (- 1) SEARCH_DATA far_keys_heap
       = Inr (0, far_keys_heap)"
    by (simp add: eval_defs two_nodes_tree_def far_keys_heap_def SEARCH_DATA_def)
  then show ?thesis using far_keys_holds by (simp add: far_keys_shape_def)
qed

text \<open>
  C10.  On the same tree the search for the key \<open>-1\<close> with \<open>SEARCH_SPLAY\<close>
  alone returns \<open>NULL\<close> and splays nothing: the store is as it was, and the
  key of the root still is \<open>INT_MAX\<close>.
\<close>

theorem splay_search_misses_far_key:
  "holds two_nodes_tree far_keys_heap far_keys_shape
   \<and> keys far_keys_shape = [- 1, 2147483647]
   \<and> splay_int_search 3 (Some two_nodes_tree) (- 1) SEARCH_SPLAY far_keys_heap
       = Inr (0, far_keys_heap)
   \<and> map_option key (far_keys_heap (root two_nodes_tree)) = Some 2147483647"
proof -
  have "splay_int_search 3 (Some two_nodes_tree) (- 1) SEARCH_SPLAY far_keys_heap
       = Inr (0, far_keys_heap)"
    by (simp add: eval_defs two_nodes_tree_def far_keys_heap_def SEARCH_SPLAY_def)
  moreover have "map_option key (far_keys_heap (root two_nodes_tree)) = Some 2147483647"
    by (simp add: two_nodes_tree_def far_keys_heap_def)
  ultimately show ?thesis using far_keys_holds by (simp add: far_keys_shape_def)
qed

end
